theory Spec2Isabelle
  imports Complex_Main "HOL-Library.Sublist" "HOL-Library.AList"
begin

text \<open>
  A model of the revision projection code of the repository: \<open>docs.py\<close> (extraction,
  the span locator, the run splicer and the loop over the changes) and
  \<open>doc_transformation/docx_processor.py\<close> (extraction with contexts, insertion and
  deletion runs, the orchestrator and the output archive). Documents are element trees
  as lxml holds them; what lies outside the program (the language model, the clock, the
  random source, lxml's parser and serializer) is a parameter of the functions that use
  it. The first part gives the definitions, in the order of the source; the second part
  proves the properties.
\<close>

section \<open>Strings\<close>

text \<open>
  Python strings are sequences of code points. They are modelled as HOL strings, so the
  alphabet is the code points below 256. \<open>str.strip()\<close> removes leading and trailing
  white space; below 256 the white-space code points of Python are 9 to 13, 28 to 32,
  133 and 160.
\<close>

definition isspace :: "char \<Rightarrow> bool" where
  "isspace c = (of_char c \<in> {9, 10, 11, 12, 13, 28, 29, 30, 31, 32, 133, 160 :: nat})"

definition strip :: "string \<Rightarrow> string" where
  "strip s = rev (dropWhile isspace (rev (dropWhile isspace s)))"

text \<open>
  \<open>s.find(n)\<close>: the lowest index at which \<open>n\<close> occurs in \<open>s\<close>; Python's \<open>-1\<close>
  (absent) is \<open>None\<close>. \<open>n in s\<close> is \<open>py_find s n \<noteq> None\<close>.
\<close>

fun py_find :: "string \<Rightarrow> string \<Rightarrow> nat option" where
  "py_find [] n = (if n = [] then Some 0 else None)"
| "py_find (c # s) n =
     (if prefix n (c # s) then Some 0 else map_option Suc (py_find s n))"



section \<open>Errors\<close>

datatype error =
  IndexError | TypeError | ValueError | KeyError | ConnectionError | XMLSyntaxError
  | FileNotFoundError

section \<open>The Span Locator of docs.py\<close>

text \<open>
  Lines 101 to 120 of \<open>apply_tracked_changes_to_chinese_doc\<close>: the walk over
  \<open>run_texts\<close>. The arguments are \<open>idx\<close>, \<open>len(c_text)\<close>, the loop index \<open>i\<close>,
  \<open>current_pos\<close> and the pair \<open>(start_run_idx, start_offset)\<close> (\<open>None\<close> until set); the
  result is that pair and the pair \<open>(end_run_idx, end_offset)\<close>, \<open>None\<close> when the loop
  ends without \<open>break\<close>.
\<close>

fun locate_loop ::
  "nat \<Rightarrow> nat \<Rightarrow> nat \<Rightarrow> nat \<Rightarrow> (nat \<times> nat) option \<Rightarrow> string list
    \<Rightarrow> (nat \<times> nat) option \<times> (nat \<times> nat) option" where
  "locate_loop idx n i current_pos st [] = (st, None)"
| "locate_loop idx n i current_pos st (rt # rts) =
     (let run_len = length rt;
          run_start = current_pos;
          run_end = current_pos + run_len;
          st' = (if st = None \<and> run_start \<le> idx \<and> idx < run_end
                 then Some (i, idx - run_start) else st)
      in if st' \<noteq> None \<and> run_start < idx + n \<and> idx + n \<le> run_end
         then (st', Some (i, idx + n - run_start))
         else locate_loop idx n (Suc i) (current_pos + run_len) st' rts)"

text \<open>
  A span: the start pair (which stays \<open>None\<close> when no run holds the start index) and
  the end run index and offset.
\<close>

type_synonym span = "(nat \<times> nat) option \<times> nat \<times> nat"

text \<open>
  Lines 92 to 125: \<open>find\<close>, the walk, and the clamp to the last run when the walk found
  no end. \<open>Inr None\<close> is the \<open>continue\<close> of line 97 (no match in this paragraph). With no
  run at all the clamp reads \<open>run_texts[-1]\<close> of an empty list, which raises.
\<close>

definition locate :: "string list \<Rightarrow> string \<Rightarrow> error + span option" where
  "locate run_texts c_text =
     (case py_find (concat run_texts) c_text of
        None \<Rightarrow> Inr None
      | Some idx \<Rightarrow>
          (case locate_loop idx (length c_text) 0 0 None run_texts of
             (st, Some (end_run_idx, end_offset)) \<Rightarrow> Inr (Some (st, end_run_idx, end_offset))
           | (st, None) \<Rightarrow>
               if run_texts = [] then Inl IndexError
               else Inr (Some (st, length run_texts - 1, length (last run_texts)))))"


section \<open>The document tree\<close>

text \<open>
  An element as lxml holds it: tag, attributes in order, the text before the first
  child, the children, and the tail (the text after the element's end tag, which
  belongs to the element and moves with it). A missing text or tail is the empty
  string. Tags and attribute names are written with their prefix, \<open>w:r\<close> for
  \<open>{http://schemas.openxmlformats.org/wordprocessingml/2006/main}r\<close>.
\<close>

datatype elem =
  Elem (tag: string) (attrib: "(string \<times> string) list") (elem_text: string)
       (kids: "elem list") (tail: string)

text \<open>
  The text nodes that \<open>.//tg/text()\<close> selects below a context node, in document order.
  \<open>tnodes tg par e\<close> lists them for the subtree of a descendant \<open>e\<close>: its own text when
  it is a \<open>tg\<close> element, what its children give, and its tail when \<open>par\<close> holds, that is
  when its parent is a selected \<open>tg\<close> element.
\<close>

fun tnodes :: "string \<Rightarrow> bool \<Rightarrow> elem \<Rightarrow> string list" where
  "tnodes tg par (Elem t a tx ks ta) =
     (if t = tg then [tx] else []) @ concat (map (tnodes tg (t = tg)) ks)
       @ (if par then [ta] else [])"

text \<open>\<open>''.join(e.xpath('.//tg/text()'))\<close>\<close>

definition xpath_text :: "string \<Rightarrow> elem \<Rightarrow> string" where
  "xpath_text tg e = concat (concat (map (tnodes tg False) (kids e)))"

text \<open>All strict descendants in document order, and \<open>e.xpath('.//tg')\<close>.\<close>

fun descendants :: "elem \<Rightarrow> elem list" where
  "descendants (Elem t a tx ks ta) = concat (map (\<lambda>k. k # descendants k) ks)"

definition xpath_desc :: "string \<Rightarrow> elem \<Rightarrow> elem list" where
  "xpath_desc tg e = filter (\<lambda>d. tag d = tg) (descendants e)"

text \<open>
  \<open>e.xpath('./tg')\<close>: the children with tag \<open>tg\<close>, and the positions of these children
  in the child list (what \<open>e.index(child)\<close> returns for each).
\<close>

definition xpath_child :: "string \<Rightarrow> elem \<Rightarrow> elem list" where
  "xpath_child tg e = filter (\<lambda>k. tag k = tg) (kids e)"

definition child_positions :: "string \<Rightarrow> elem \<Rightarrow> nat list" where
  "child_positions tg e = filter (\<lambda>i. tag (kids e ! i) = tg) [0..<length (kids e)]"

text \<open>\<open>e.get(key, default)\<close>\<close>

definition get_attr :: "elem \<Rightarrow> string \<Rightarrow> string \<Rightarrow> string" where
  "get_attr e key dflt = (case map_of (attrib e) key of None \<Rightarrow> dflt | Some v \<Rightarrow> v)"

text \<open>\<open>parent.insert(i, x)\<close> on the child list (an index past the end appends).\<close>

definition insert_at :: "nat \<Rightarrow> 'a \<Rightarrow> 'a list \<Rightarrow> 'a list" where
  "insert_at i x xs = take i xs @ x # drop i xs"

definition remove_at :: "nat \<Rightarrow> 'a list \<Rightarrow> 'a list" where
  "remove_at i xs = take i xs @ drop (Suc i) xs"

definition set_kids :: "elem \<Rightarrow> elem list \<Rightarrow> elem" where
  "set_kids e ks = Elem (tag e) (attrib e) (elem_text e) ks (tail e)"

text \<open>
  The loop \<open>for t in run.xpath('.//w:t'): t.text = s; t.set(xml:space, 'preserve')\<close>:
  every \<open>w:t\<close> strictly below the run gets the text \<open>s\<close> and the attribute.
\<close>

fun retext :: "string \<Rightarrow> elem \<Rightarrow> elem" where
  "retext s (Elem t a tx ks ta) =
     Elem t (if t = ''w:t'' then AList.update ''xml:space'' ''preserve'' a else a)
          (if t = ''w:t'' then s else tx) (map (retext s) ks) ta"

definition set_t_text :: "string \<Rightarrow> elem \<Rightarrow> elem" where
  "set_t_text s run = set_kids run (map (retext s) (kids run))"

section \<open>Revision records\<close>

datatype kind = Insertion | Deletion

record change =
  ctype :: kind
  ctext :: string
  original_context :: string
  current_context :: string
  paragraph_index :: nat
  author :: string
  date :: string
  change_id :: string
  element :: elem

section \<open>docx\_processor.py: building and applying revision runs\<close>

text \<open>\<open>_get_paragraph_text\<close>\<close>

definition get_paragraph_text :: "elem \<Rightarrow> string" where
  "get_paragraph_text p_element = xpath_text ''w:t'' p_element"

text \<open>
  lxml takes a string as a text or as an attribute value only when it is XML compatible:
  it raises \<open>ValueError\<close> on a NUL byte or a control character, that is on a code
  point below 32 other than tab, line feed and carriage return. The trees themselves
  come from lxml's parser, which lets no such character in, so the check matters for
  the strings that reach a tree from elsewhere: the replies of the language model and
  the fields of a revision record.
\<close>

definition xml_compatible :: "string \<Rightarrow> bool" where
  "xml_compatible s =
     list_all (\<lambda>c. 32 \<le> (of_char c :: nat) \<or> of_char c \<in> {9, 10, 13 :: nat}) s"

text \<open>
  \<open>_create_track_changes_element\<close>. \<open>track_changes_element\<close> is the run that lines 205
  to 214 and 217 to 226 build; \<open>create_track_changes_element\<close> is the function: the
  attribute values are set first (lines 206 and 218), then the text (lines 212 and
  224), and each of them raises \<open>ValueError\<close> when lxml refuses the string.
\<close>

definition track_changes_element ::
  "kind \<Rightarrow> string \<Rightarrow> string \<Rightarrow> string \<Rightarrow> string \<Rightarrow> elem" where
  "track_changes_element change_type txt auth dat cid =
     (case change_type of
        Insertion \<Rightarrow>
          Elem ''w:r'' [] []
            [Elem ''w:ins'' [(''w:author'', auth), (''w:date'', dat), (''w:id'', cid)] []
               [Elem ''w:t'' [(''xml:space'', ''preserve'')] txt [] []] []] []
      | Deletion \<Rightarrow>
          Elem ''w:r'' [] []
            [Elem ''w:del'' [(''w:author'', auth), (''w:date'', dat), (''w:id'', cid)] []
               [Elem ''w:delText'' [(''xml:space'', ''preserve'')] txt [] []] []] [])"

definition create_track_changes_element ::
  "kind \<Rightarrow> string \<Rightarrow> string \<Rightarrow> string \<Rightarrow> string \<Rightarrow> error + elem" where
  "create_track_changes_element change_type txt auth dat cid =
     (if \<not> (xml_compatible auth \<and> xml_compatible dat \<and> xml_compatible cid)
      then Inl ValueError
      else if \<not> xml_compatible txt then Inl ValueError
      else Inr (track_changes_element change_type txt auth dat cid))"

text \<open>
  The language model behind \<open>_get_llm_response\<close> is outside the program: what the
  \<open>k\<close>-th call finds is a parameter \<open>llm k\<close>. The prompts only go to the model and are
  left out. \<open>Unavailable\<close>: \<open>is_available()\<close> is false; \<open>NoText\<close>: \<open>query\<close> returns
  \<open>None\<close>; both raise \<open>ConnectionError\<close>.
\<close>

datatype reply = Unavailable | NoText | Says string

definition get_llm_response :: "(nat \<Rightarrow> reply) \<Rightarrow> nat \<Rightarrow> error + string" where
  "get_llm_response llm k =
     (case llm k of
        Unavailable \<Rightarrow> Inl ConnectionError
      | NoText \<Rightarrow> Inl ConnectionError
      | Says raw \<Rightarrow>
          (let result = strip raw
           in if result \<noteq> [] \<and> hd result = CHR 0x22 \<and> last result = CHR 0x22
              then Inr (butlast (tl result)) else Inr result))"

text \<open>
  \<open>int(re.search(r'\d+', s).group())\<close>: the first maximal run of digits, read in base
  ten; \<open>None\<close> when there is no digit (the \<open>AttributeError\<close> of \<open>None.group()\<close>).
\<close>

definition isdigit :: "char \<Rightarrow> bool" where
  "isdigit c = (48 \<le> (of_char c :: nat) \<and> (of_char c :: nat) \<le> 57)"

definition first_int :: "string \<Rightarrow> nat option" where
  "first_int s =
     (let ds = takeWhile isdigit (dropWhile (\<lambda>c. \<not> isdigit c) s)
      in if ds = [] then None
         else Some (foldl (\<lambda>v c. 10 * v + (of_char c - 48)) 0 ds))"

text \<open>
  Lines 240 to 246 of \<open>_apply_insertion_change\<close>: the position the model gives, clamped
  to the paragraph text, and the end of the text when anything fails.
\<close>

definition resolve_position :: "(nat \<Rightarrow> reply) \<Rightarrow> nat \<Rightarrow> string \<Rightarrow> nat" where
  "resolve_position llm k chinese_text =
     (case get_llm_response llm k of
        Inl e \<Rightarrow> length chinese_text
      | Inr position_str \<Rightarrow>
          (case first_int position_str of
             None \<Rightarrow> length chinese_text
           | Some position \<Rightarrow> max 0 (min position (length chinese_text))))"

text \<open>
  Lines 254 to 260: the first run whose character range holds the position; the result
  is \<open>(target_run_index, offset_in_run)\<close>.
\<close>

fun insertion_loop :: "nat \<Rightarrow> nat \<Rightarrow> nat \<Rightarrow> elem list \<Rightarrow> (nat \<times> nat) option" where
  "insertion_loop position i current_pos [] = None"
| "insertion_loop position i current_pos (run # runs) =
     (let run_text = xpath_text ''w:t'' run
      in if current_pos \<le> position \<and> position \<le> current_pos + length run_text
         then Some (i, position - current_pos)
         else insertion_loop position (Suc i) (current_pos + length run_text) runs)"

text \<open>
  \<open>_apply_insertion_change\<close>; the result is the paragraph after the call, or the
  exception that leaves the call. The call reads one reply of the language model, the
  \<open>k\<close>-th, before it builds the insertion run (line 263); the paragraph is changed only
  after the run is built, so an exception leaves it as it was.
\<close>

definition apply_insertion_change ::
  "(nat \<Rightarrow> reply) \<Rightarrow> nat \<Rightarrow> elem \<Rightarrow> string \<Rightarrow> string \<Rightarrow> change \<Rightarrow> error + elem" where
  "apply_insertion_change llm k target_para_element text_to_insert chinese_text chg =
     (let position = resolve_position llm k chinese_text;
          runs = xpath_child ''w:r'' target_para_element;
          ks = kids target_para_element
      in case create_track_changes_element Insertion text_to_insert
                (author chg) (date chg) (change_id chg) of
           Inl e \<Rightarrow> Inl e
         | Inr ins_run \<Rightarrow>
            Inr (case insertion_loop position 0 0 runs of
              None \<Rightarrow> set_kids target_para_element (ks @ [ins_run])
            | Some (target_run_index, offset_in_run) \<Rightarrow>
             (let target_run = runs ! target_run_index;
                  run_index = child_positions ''w:r'' target_para_element ! target_run_index;
                  run_text = xpath_text ''w:t'' target_run
              in if offset_in_run = 0
                 then set_kids target_para_element (insert_at run_index ins_run ks)
                 else if offset_in_run \<ge> length run_text
                 then set_kids target_para_element (insert_at (run_index + 1) ins_run ks)
                 else
                   (let before_text = take offset_in_run run_text;
                        after_text = drop offset_in_run run_text;
                        target_run' = set_t_text before_text target_run;
                        ks1 = insert_at (run_index + 1) ins_run (ks[run_index := target_run'])
                    in if after_text \<noteq> []
                       then set_kids target_para_element
                              (insert_at (run_index + 2) (set_t_text after_text target_run') ks1)
                       else set_kids target_para_element ks1))))"

text \<open>
  One entry of \<open>runs_to_modify\<close>. \<open>child\<close> stands for the entry's \<open>element\<close>: the position
  of the run among the paragraph's children when the list is built. The runs are
  rewritten last to first, so when an entry is used everything changed so far lies
  after that position and \<open>target_para_element.index(run_element)\<close> is still \<open>child\<close>.
\<close>

record run_info =
  index :: nat
  child :: nat
  rtext :: string
  run_start :: nat
  run_end :: nat
  delete_start_in_run :: nat
  delete_end_in_run :: nat

text \<open>Lines 329 to 348: the runs that overlap the range to delete.\<close>

fun overlap_loop ::
  "nat \<Rightarrow> nat \<Rightarrow> nat \<Rightarrow> nat \<Rightarrow> (nat \<times> elem) list \<Rightarrow> run_info list" where
  "overlap_loop delete_start delete_end i current_pos [] = []"
| "overlap_loop delete_start delete_end i current_pos ((c, run) # runs) =
     (let run_text = xpath_text ''w:t'' run;
          rs = current_pos;
          re = current_pos + length run_text
      in (if rs < delete_end \<and> re > delete_start
          then [\<lparr>index = i, child = c, rtext = run_text, run_start = rs, run_end = re,
                  delete_start_in_run = max rs delete_start - rs,
                  delete_end_in_run = min re delete_end - rs\<rparr>]
          else [])
         @ overlap_loop delete_start delete_end (Suc i) (current_pos + length run_text) runs)"

text \<open>
  Lines 352 to 388, the body of the loop over the reversed list, on the paragraph's
  child list: the before run, the deletion run and the after run are inserted in front
  of the original run, which is then removed. The result is the child list after the
  body, and the exception when building the deletion run raises (line 374): the before
  run is then already in the paragraph (line 370) and the original run still is.
\<close>

definition delete_step :: "change \<Rightarrow> elem list \<Rightarrow> run_info \<Rightarrow> error option \<times> elem list" where
  "delete_step chg ks ri =
     (let run_element = ks ! child ri;
          run_text = rtext ri;
          start_offset = delete_start_in_run ri;
          end_offset = delete_end_in_run ri;
          before_text = take start_offset run_text;
          deleted_text = take (end_offset - start_offset) (drop start_offset run_text);
          after_text = drop end_offset run_text;
          run_index = child ri;
          ks1 = (if before_text \<noteq> []
                 then insert_at run_index (set_t_text before_text run_element) ks else ks);
          insert_offset = (if before_text \<noteq> [] then 1 else 0)
      in case create_track_changes_element Deletion deleted_text
                (author chg) (date chg) (change_id chg) of
           Inl e \<Rightarrow> (Some e, ks1)
         | Inr del_run \<Rightarrow>
            (let ks2 = insert_at (run_index + insert_offset) del_run ks1;
                 insert_offset2 = insert_offset + 1;
                 ks3 = (if after_text \<noteq> []
                        then insert_at (run_index + insert_offset2)
                               (set_t_text after_text run_element) ks2
                        else ks2);
                 inserted = insert_offset2 + (if after_text \<noteq> [] then 1 else 0)
             in (None, remove_at (run_index + inserted) ks3)))"

text \<open>
  The loop \<open>for run_info in reversed(runs_to_modify)\<close>, given the reversed list: it
  stops at the first body that raises.
\<close>

fun delete_loop :: "change \<Rightarrow> elem list \<Rightarrow> run_info list \<Rightarrow> error option \<times> elem list" where
  "delete_loop chg ks [] = (None, ks)"
| "delete_loop chg ks (ri # ris) =
     (case delete_step chg ks ri of
        (Some e, ks') \<Rightarrow> (Some e, ks')
      | (None, ks') \<Rightarrow> delete_loop chg ks' ris)"

text \<open>
  \<open>_apply_deletion_change\<close>: the returned flag, or the exception that leaves the call,
  and the paragraph after the call. The test \<open>text_to_delete not in chinese_text\<close> and
  the \<open>find\<close> of line 321 are one \<open>case\<close>.
\<close>

definition runs_to_modify :: "elem \<Rightarrow> nat \<Rightarrow> nat \<Rightarrow> run_info list" where
  "runs_to_modify target_para_element delete_start delete_end =
     overlap_loop delete_start delete_end 0 0
       (zip (child_positions ''w:r'' target_para_element) (xpath_child ''w:r'' target_para_element))"

definition apply_deletion_change ::
  "(nat \<Rightarrow> reply) \<Rightarrow> nat \<Rightarrow> elem \<Rightarrow> string \<Rightarrow> change \<Rightarrow> (error + bool) \<times> elem" where
  "apply_deletion_change llm k target_para_element chinese_text chg =
     (case get_llm_response llm k of
        Inl e \<Rightarrow> (Inr False, target_para_element)
      | Inr response \<Rightarrow>
          (let text_to_delete = strip response
           in if text_to_delete = [] then (Inr False, target_para_element)
              else
                (case py_find chinese_text text_to_delete of
                   None \<Rightarrow> (Inr False, target_para_element)
                 | Some delete_start \<Rightarrow>
                     (let delete_end = delete_start + length text_to_delete;
                          todo = runs_to_modify target_para_element delete_start delete_end
                      in case delete_loop chg (kids target_para_element) (rev todo) of
                           (Some e, ks') \<Rightarrow> (Inl e, set_kids target_para_element ks')
                         | (None, ks') \<Rightarrow> (Inr True, set_kids target_para_element ks')))))"

section \<open>Sample data\<close>


section \<open>docx\_processor.py: the Revision Record Extractor\<close>

text \<open>
  \<open>root.xpath('//w:body/w:p')\<close>: the \<open>w:p\<close> elements whose parent is a \<open>w:body\<close>
  element, in document order. \<open>par\<close> tells whether the parent of the element is a
  \<open>w:body\<close>; the parent of the root is the document node.
\<close>

fun body_ps :: "bool \<Rightarrow> elem \<Rightarrow> elem list" where
  "body_ps par (Elem t a tx ks ta) =
     (if par \<and> t = ''w:p'' then [Elem t a tx ks ta] else [])
       @ concat (map (body_ps (t = ''w:body'')) ks)"

definition body_paragraphs :: "elem \<Rightarrow> elem list" where
  "body_paragraphs doc_root = body_ps False doc_root"

text \<open>One entry of \<open>runs_info\<close>, and \<open>_get_paragraph_text_with_structure\<close>.\<close>

record run_struct =
  rs_text :: string
  rs_element :: elem
  is_insertion :: bool
  is_deletion :: bool

definition get_paragraph_text_with_structure :: "elem \<Rightarrow> run_struct list" where
  "get_paragraph_text_with_structure p_element =
     map (\<lambda>run. \<lparr>rs_text = xpath_text ''w:t'' run, rs_element = run,
                  is_insertion = (xpath_desc ''w:ins'' run \<noteq> []),
                  is_deletion = (xpath_desc ''w:del'' run \<noteq> [])\<rparr>)
       (filter (\<lambda>run. xpath_text ''w:t'' run \<noteq> []) (xpath_child ''w:r'' p_element))"

text \<open>
  Lines 58 to 72: what each entry of \<open>runs_info\<close> adds to \<open>original_text_parts\<close> (first
  component) and to \<open>current_text_parts\<close> (second component).
\<close>

definition run_parts :: "run_struct \<Rightarrow> string list \<times> string list" where
  "run_parts run_info =
     (if is_deletion run_info
      then ([xpath_text ''w:delText'' (rs_element run_info)], [])
      else if \<not> is_insertion run_info
      then ([rs_text run_info], [rs_text run_info])
      else ([], [rs_text run_info]))"

definition original_paragraph_text :: "elem \<Rightarrow> string" where
  "original_paragraph_text p =
     strip (concat (concat (map (fst \<circ> run_parts) (get_paragraph_text_with_structure p))))"

definition current_paragraph_text :: "elem \<Rightarrow> string" where
  "current_paragraph_text p =
     strip (concat (concat (map (snd \<circ> run_parts) (get_paragraph_text_with_structure p))))"

text \<open>
  The clock and the random source are outside the program: the \<open>n\<close>-th record made in
  one pass evaluates \<open>datetime.now().isoformat()\<close> to \<open>now_iso env n\<close> and
  \<open>str(uuid.uuid4().int)[:8]\<close> to \<open>uuid4_8 env n\<close>.
\<close>

record env =
  now_iso :: "nat \<Rightarrow> string"
  uuid4_8 :: "nat \<Rightarrow> string"

text \<open>
  The loops of lines 82 to 100 (insertions, text under \<open>w:t\<close>) and 104 to 122
  (deletions, text under \<open>w:delText\<close>) over the markers of one paragraph; \<open>n\<close> counts
  the records made so far.
\<close>

fun marker_records ::
  "env \<Rightarrow> kind \<Rightarrow> string \<Rightarrow> string \<Rightarrow> nat \<Rightarrow> nat \<Rightarrow> elem list \<Rightarrow> change list" where
  "marker_records ev k orig cur para_idx n [] = []"
| "marker_records ev k orig cur para_idx n (m # ms) =
     (let marked_text =
            strip (xpath_text (case k of Insertion \<Rightarrow> ''w:t'' | Deletion \<Rightarrow> ''w:delText'') m)
      in if marked_text \<noteq> []
         then \<lparr>ctype = k, ctext = marked_text, original_context = orig,
                current_context = cur, paragraph_index = para_idx,
                author = get_attr m ''w:author'' ''Unknown'',
                date = get_attr m ''w:date'' (now_iso ev n),
                change_id = get_attr m ''w:id'' (uuid4_8 ev n),
                element = m\<rparr>
              # marker_records ev k orig cur para_idx (Suc n) ms
         else marker_records ev k orig cur para_idx n ms)"

text \<open>The body of the loop over the paragraphs, lines 54 to 122.\<close>

definition paragraph_changes :: "env \<Rightarrow> nat \<Rightarrow> nat \<Rightarrow> elem \<Rightarrow> change list" where
  "paragraph_changes ev para_idx n p =
     (let orig = original_paragraph_text p;
          cur = current_paragraph_text p
      in if orig = [] \<and> cur = [] then []
         else
           (let ins = marker_records ev Insertion orig cur para_idx n (xpath_desc ''w:ins'' p)
            in ins @ marker_records ev Deletion orig cur para_idx (n + length ins)
                       (xpath_desc ''w:del'' p)))"

fun extract_loop :: "env \<Rightarrow> nat \<Rightarrow> nat \<Rightarrow> elem list \<Rightarrow> change list" where
  "extract_loop ev para_idx n [] = []"
| "extract_loop ev para_idx n (p # ps) =
     (let cs = paragraph_changes ev para_idx n p
      in cs @ extract_loop ev (Suc para_idx) (n + length cs) ps)"

text \<open>\<open>_extract_changes_from_english_docx\<close>, on the parsed \<open>word/document.xml\<close>.\<close>

definition extract_changes_from_english_docx :: "env \<Rightarrow> elem \<Rightarrow> change list" where
  "extract_changes_from_english_docx ev doc_root = extract_loop ev 0 0 (body_paragraphs doc_root)"

definition run_of :: "string \<Rightarrow> elem" where
  "run_of s = Elem ''w:r'' [] [] [Elem ''w:t'' [] s [] []] []"

definition doc_of :: "elem list \<Rightarrow> elem" where
  "doc_of ps = Elem ''w:document'' [] [] [Elem ''w:body'' [] [] ps []] []"

definition deleted_run :: elem where
  "deleted_run = Elem ''w:r'' [] []
      [Elem ''w:del'' [(''w:author'', ''Ann''), (''w:date'', ''d''), (''w:id'', ''1'')] []
         [Elem ''w:delText'' [] ''gone'' [] []] []] []"

definition envA :: env where "envA = \<lparr>now_iso = (\<lambda>n. ''t1''), uuid4_8 = (\<lambda>n. ''11111111'')\<rparr>"


definition envB :: env where "envB = \<lparr>now_iso = (\<lambda>n. ''t2''), uuid4_8 = (\<lambda>n. ''22222222'')\<rparr>"

text \<open>A record without the two fields that the clock and the random source can fill.\<close>

definition unstamp :: "change \<Rightarrow> change" where
  "unstamp c = c\<lparr>date := [], change_id := []\<rparr>"

text \<open>The marker carries its own date and identifier.\<close>

definition stamped :: "elem \<Rightarrow> bool" where
  "stamped m = (map_of (attrib m) ''w:date'' \<noteq> None \<and> map_of (attrib m) ''w:id'' \<noteq> None)"

definition all_stamped :: "elem \<Rightarrow> bool" where
  "all_stamped doc_root =
     (\<forall>p \<in> set (body_paragraphs doc_root).
        \<forall>m \<in> set (xpath_desc ''w:ins'' p @ xpath_desc ''w:del'' p). stamped m)"

section \<open>docx\_processor.py: the Projection Orchestrator\<close>

text \<open>
  The target document is the list of its body paragraphs (the elements that
  \<open>//w:body/w:p\<close> selects, none of which lies inside another); a paragraph element is
  referred to by its position in this list, and changing the element in place is
  replacing the list entry.

  Lines 401 to 408: \<open>chinese_para_map\<close> takes a paragraph text to the paragraph element
  stored last under that text, and \<open>all_chinese_paras\<close> lists the texts in document
  order.
\<close>

definition chinese_para_map :: "elem list \<Rightarrow> string \<Rightarrow> nat option" where
  "chinese_para_map chinese_paragraphs =
     foldl (\<lambda>m (i, p). if strip (get_paragraph_text p) \<noteq> []
                         then m(get_paragraph_text p \<mapsto> i) else m)
       Map.empty (enumerate 0 chinese_paragraphs)"

definition all_chinese_paras :: "elem list \<Rightarrow> string list" where
  "all_chinese_paras chinese_paragraphs =
     filter (\<lambda>para_text. strip para_text \<noteq> []) (map get_paragraph_text chinese_paragraphs)"

text \<open>
  \<open>float(re.search(r'[\d.]+', s).group())\<close>: the first maximal run of digits and dots,
  read as a decimal number; \<open>None\<close> when there is no such run or when it is not a number
  (more than one dot, or no digit). The value is kept exact, where Python rounds it to a
  double.
\<close>

definition digits_value :: "string \<Rightarrow> nat" where
  "digits_value ds = foldl (\<lambda>v c. 10 * v + (of_char c - 48)) 0 ds"

definition first_float :: "string \<Rightarrow> rat option" where
  "first_float s =
     (let isnum = (\<lambda>c. isdigit c \<or> c = CHR ''.'');
          tok = takeWhile isnum (dropWhile (\<lambda>c. \<not> isnum c) s);
          ip = takeWhile isdigit tok;
          rest = dropWhile isdigit tok;
          fp = (if rest = [] then [] else tl rest)
      in if tok = [] \<or> \<not> list_all isdigit fp \<or> (ip = [] \<and> fp = []) then None
         else Some (of_nat (digits_value ip) + of_nat (digits_value fp) / 10 ^ length fp))"

text \<open>
  Lines 178 to 192: the scores of the first ten paragraphs; the \<open>i\<close>-th one reads reply
  \<open>k + i\<close>, and any failure gives the score 0.
\<close>

definition similarity_scores ::
  "(nat \<Rightarrow> reply) \<Rightarrow> nat \<Rightarrow> string list \<Rightarrow> (rat \<times> nat \<times> string) list" where
  "similarity_scores llm k paras =
     map (\<lambda>(i, chinese_para).
            (case get_llm_response llm (k + i) of
               Inl e \<Rightarrow> (0, i, chinese_para)
             | Inr score_response \<Rightarrow>
                 (case first_float score_response of
                    None \<Rightarrow> (0, i, chinese_para)
                  | Some score \<Rightarrow> (score, i, chinese_para))))
       (enumerate 0 (take 10 paras))"

text \<open>\<open>max(xs, key=lambda x: x[0])\<close> on a list that is not empty: the first greatest.\<close>

definition max_by_score :: "(rat \<times> nat \<times> string) \<Rightarrow> (rat \<times> nat \<times> string) list
    \<Rightarrow> (rat \<times> nat \<times> string)" where
  "max_by_score x xs = foldl (\<lambda>best y. if fst best < fst y then y else best) x xs"

text \<open>
  \<open>_find_best_chinese_paragraph_match\<close>. The result is the matched text with the
  paragraph element stored under it (\<open>None\<close> for \<open>(None, None)\<close>) and the number of the
  next reply of the language model. A \<open>ConnectionError\<close> of the first strategy is not
  caught here.
\<close>

definition find_best_chinese_paragraph_match ::
  "(nat \<Rightarrow> reply) \<Rightarrow> nat \<Rightarrow> string list \<Rightarrow> (string \<Rightarrow> nat option)
     \<Rightarrow> error + ((string \<times> nat) option \<times> nat)" where
  "find_best_chinese_paragraph_match llm k paras chinese_para_elements =
     (let strategy2 =
            (let scores = similarity_scores llm (k + 1) paras;
                 k' = k + 1 + length scores
             in case scores of
                  [] \<Rightarrow> Inr (None, k')
                | x # xs \<Rightarrow>
                    (let best_match = max_by_score x xs
                     in if fst best_match > 5
                        then (case chinese_para_elements (snd (snd best_match)) of
                                None \<Rightarrow> Inl KeyError
                              | Some el \<Rightarrow> Inr (Some (snd (snd best_match), el), k'))
                        else Inr (None, k')))
      in case get_llm_response llm k of
           Inl e \<Rightarrow> Inl e
         | Inr response \<Rightarrow>
             (case first_int response of
                None \<Rightarrow> strategy2
              | Some idx \<Rightarrow>
                  if idx < length paras
                  then (case chinese_para_elements (paras ! idx) of
                          None \<Rightarrow> Inl KeyError
                        | Some el \<Rightarrow> Inr (Some (paras ! idx, el), k + 1))
                  else strategy2))"

text \<open>
  The state of \<open>_create_updated_docx\<close>: the body paragraphs of the target document, the
  two counters, and the number of the next reply of the language model.
\<close>

record ostate =
  paras :: "elem list"
  successful_changes :: nat
  failed_changes :: nat
  calls :: nat

text \<open>
  Lines 437 to 458, the body of the loop over the changes of one group, for the target
  paragraph at position \<open>target\<close>. Whatever raises inside the \<open>try\<close> is caught at line
  456 and the change is counted as failed: an insertion whose translation cannot be
  obtained, an insertion or a deletion whose revision run lxml refuses to build. The
  paragraph stays as the interrupted call left it.
\<close>

definition process_change ::
  "(nat \<Rightarrow> reply) \<Rightarrow> string \<Rightarrow> nat \<Rightarrow> ostate \<Rightarrow> change \<Rightarrow> ostate" where
  "process_change llm chinese_text target s chg =
     (case ctype chg of
        Insertion \<Rightarrow>
          (case get_llm_response llm (calls s) of
             Inl e \<Rightarrow> s\<lparr>failed_changes := failed_changes s + 1, calls := calls s + 1\<rparr>
           | Inr text_to_insert \<Rightarrow>
               (case apply_insertion_change llm (calls s + 1) (paras s ! target)
                       text_to_insert chinese_text chg of
                  Inl e \<Rightarrow> s\<lparr>failed_changes := failed_changes s + 1, calls := calls s + 2\<rparr>
                | Inr p' \<Rightarrow>
                    s\<lparr>paras := (paras s)[target := p'],
                      successful_changes := successful_changes s + 1,
                      calls := calls s + 2\<rparr>))
      | Deletion \<Rightarrow>
          (case apply_deletion_change llm (calls s) (paras s ! target) chinese_text chg of
             (Inr True, p') \<Rightarrow>
               s\<lparr>paras := (paras s)[target := p'],
                 successful_changes := successful_changes s + 1,
                 calls := calls s + 1\<rparr>
           | (Inr False, p') \<Rightarrow>
               s\<lparr>paras := (paras s)[target := p'],
                 failed_changes := failed_changes s + 1,
                 calls := calls s + 1\<rparr>
           | (Inl e, p') \<Rightarrow>
               s\<lparr>paras := (paras s)[target := p'],
                 failed_changes := failed_changes s + 1,
                 calls := calls s + 1\<rparr>))"

text \<open>Lines 414 to 419: the changes grouped by paragraph index, in order of first use.\<close>

fun add_to_group :: "change \<Rightarrow> (nat \<times> change list) list \<Rightarrow> (nat \<times> change list) list" where
  "add_to_group chg [] = [(paragraph_index chg, [chg])]"
| "add_to_group chg ((para_idx, cs) # gs) =
     (if para_idx = paragraph_index chg then (para_idx, cs @ [chg]) # gs
      else (para_idx, cs) # add_to_group chg gs)"

definition changes_by_para :: "change list \<Rightarrow> (nat \<times> change list) list" where
  "changes_by_para changes = foldl (\<lambda>gs chg. add_to_group chg gs) [] changes"

text \<open>
  Lines 422 to 458, one group. An element without children is false in lxml, so such a
  target counts as no match.
\<close>

definition process_group ::
  "(nat \<Rightarrow> reply) \<Rightarrow> string list \<Rightarrow> (string \<Rightarrow> nat option) \<Rightarrow> ostate
     \<Rightarrow> nat \<times> change list \<Rightarrow> error + ostate" where
  "process_group llm all_paras para_map s grp =
     (case find_best_chinese_paragraph_match llm (calls s) all_paras para_map of
        Inl e \<Rightarrow> Inl e
      | Inr (None, k') \<Rightarrow>
          Inr (s\<lparr>failed_changes := failed_changes s + length (snd grp), calls := k'\<rparr>)
      | Inr (Some (chinese_text, target), k') \<Rightarrow>
          if chinese_text = [] \<or> kids (paras s ! target) = []
          then Inr (s\<lparr>failed_changes := failed_changes s + length (snd grp), calls := k'\<rparr>)
          else Inr (foldl (process_change llm chinese_text target) (s\<lparr>calls := k'\<rparr>) (snd grp)))"

fun process_groups ::
  "(nat \<Rightarrow> reply) \<Rightarrow> string list \<Rightarrow> (string \<Rightarrow> nat option) \<Rightarrow> ostate
     \<Rightarrow> (nat \<times> change list) list \<Rightarrow> error + ostate" where
  "process_groups llm all_paras para_map s [] = Inr s"
| "process_groups llm all_paras para_map s (grp # grps) =
     (case process_group llm all_paras para_map s grp of
        Inl e \<Rightarrow> Inl e
      | Inr s' \<Rightarrow> process_groups llm all_paras para_map s' grps)"

text \<open>
  An archive as \<open>zipfile\<close> shows it: \<open>infolist()\<close> is the list of the entries, name and
  bytes, and \<open>read(name)\<close> looks the name up in a dictionary built in entry order, so it
  gives the bytes of the last entry of that name.
\<close>

type_synonym archive = "(string \<times> string) list"

definition zip_read :: "archive \<Rightarrow> string \<Rightarrow> string option" where
  "zip_read z name = map_of (rev z) name"

text \<open>Lines 468 to 473: the entries copied to the output, then the new payload.\<close>

fun copy_entries :: "archive \<Rightarrow> archive \<Rightarrow> error + archive" where
  "copy_entries z_in [] = Inr []"
| "copy_entries z_in ((filename, bytes) # items) =
     (if filename \<noteq> ''word/document.xml''
      then (case zip_read z_in filename of
              None \<Rightarrow> Inl KeyError
            | Some content \<Rightarrow>
                (case copy_entries z_in items of
                   Inl e \<Rightarrow> Inl e
                 | Inr out \<Rightarrow> Inr ((filename, content) # out)))
      else copy_entries z_in items)"

definition write_output :: "archive \<Rightarrow> string \<Rightarrow> error + archive" where
  "write_output z_in final_xml_string =
     (case copy_entries z_in z_in of
        Inl e \<Rightarrow> Inl e
      | Inr out \<Rightarrow> Inr (out @ [(''word/document.xml'', final_xml_string)]))"

text \<open>
  The archive in \<open>docs.py\<close>, lines 69 to 71 and 180 to 188: \<open>extractall\<close> writes
  every entry, in the order of the archive, to the file of its name under \<open>tmp_dir\<close>
  (the directory is a map from names to contents, and the names are taken to be plain
  relative file names, which \<open>extractall\<close> keeps as they are); \<open>etree.parse\<close> raises when
  there is no file \<open>word/document.xml\<close>; \<open>tree.write\<close> replaces that file by the
  serialized tree, here \<open>document_xml\<close>; \<open>make_archive\<close> packs the files of the
  directory.
\<close>

definition extractall :: "archive \<Rightarrow> (string \<rightharpoonup> string)" where
  "extractall z = foldl (\<lambda>fs (name, bytes). fs(name \<mapsto> bytes)) Map.empty z"

definition rezip :: "archive \<Rightarrow> string \<Rightarrow> error + (string \<rightharpoonup> string)" where
  "rezip z document_xml =
     (case extractall z ''word/document.xml'' of
        None \<Rightarrow> Inl FileNotFoundError
      | Some old_xml \<Rightarrow> Inr ((extractall z)(''word/document.xml'' \<mapsto> document_xml)))"

text \<open>
  \<open>_create_updated_docx\<close>. lxml's parser and serializer are parameters: \<open>parse\<close> reads
  the payload, and \<open>tostring doc_root ps\<close> writes the tree \<open>doc_root\<close> whose body
  paragraphs have become \<open>ps\<close>. The status messages are left out.
\<close>

definition create_updated_docx ::
  "(nat \<Rightarrow> reply) \<Rightarrow> (string \<Rightarrow> error + elem) \<Rightarrow> (elem \<Rightarrow> elem list \<Rightarrow> string)
     \<Rightarrow> archive \<Rightarrow> change list \<Rightarrow> error + (ostate \<times> archive)" where
  "create_updated_docx llm parse tostring z_in changes =
     (case zip_read z_in ''word/document.xml'' of
        None \<Rightarrow> Inl KeyError
      | Some chinese_xml_content \<Rightarrow>
          (case parse chinese_xml_content of
             Inl e \<Rightarrow> Inl e
           | Inr chinese_root \<Rightarrow>
               (let chinese_paragraphs = body_paragraphs chinese_root;
                    s0 = \<lparr>paras = chinese_paragraphs, successful_changes = 0,
                          failed_changes = 0, calls = 0\<rparr>
                in case process_groups llm (all_chinese_paras chinese_paragraphs)
                          (chinese_para_map chinese_paragraphs) s0 (changes_by_para changes) of
                     Inl e \<Rightarrow> Inl e
                   | Inr s \<Rightarrow>
                       (case write_output z_in (tostring chinese_root (paras s)) of
                          Inl e \<Rightarrow> Inl e
                        | Inr z_out \<Rightarrow> Inr (s, z_out)))))"

text \<open>More sample data.\<close>

definition two_runs :: elem where
  "two_runs = Elem ''w:p'' [] [] [run_of ''Hello '', run_of ''world''] []"

definition says_lo_wo :: "nat \<Rightarrow> reply" where
  "says_lo_wo k = Says ''lo wo''"

definition says_zero :: "nat \<Rightarrow> reply" where
  "says_zero k = Says ''0''"

definition demo_deletion :: change where
  "demo_deletion = \<lparr>ctype = Deletion, ctext = ''gone'', original_context = ''old'',
     current_context = ''o'', paragraph_index = 0, author = ''Ann'',
     date = ''d'', change_id = ''7'', element = Elem ''w:del'' [] [] [] []\<rparr>"


section \<open>docs.py: the Run Splicer and the loop over the changes\<close>

text \<open>
  \<open>p.findall('.//w:r')\<close>: the strict descendants with the tag, in document order, each
  with its path from \<open>p\<close> (the child positions on the way down). The path without its
  last step is the path of \<open>getparent()\<close>; the last step is the position in the parent.
\<close>

fun findall :: "string \<Rightarrow> elem \<Rightarrow> (nat list \<times> elem) list"
  and findall_from :: "string \<Rightarrow> nat \<Rightarrow> elem list \<Rightarrow> (nat list \<times> elem) list" where
  "findall tg (Elem t a tx ks ta) = findall_from tg 0 ks"
| "findall_from tg i [] = []"
| "findall_from tg i (k # ks) =
     (if tag k = tg then [([i], k)] else [])
       @ map (\<lambda>(pth, d). (i # pth, d)) (findall tg k)
       @ findall_from tg (Suc i) ks"

text \<open>The element at the end of the path gets the child list \<open>f\<close> makes of its own.\<close>

fun update_kids :: "nat list \<Rightarrow> (elem list \<Rightarrow> elem list) \<Rightarrow> elem \<Rightarrow> elem" where
  "update_kids [] f (Elem t a tx ks ta) = Elem t a tx (f ks) ta"
| "update_kids (i # pth) f (Elem t a tx ks ta) =
     Elem t a tx (ks[i := update_kids pth f (ks ! i)]) ta"

text \<open>\<open>_create_run\<close> and \<open>_wrap_tracked_change\<close> (\<open>date\<close> is what the clock gives).\<close>

definition create_run :: "string \<Rightarrow> elem" where
  "create_run s =
     Elem ''w:r'' [] []
       [Elem ''w:t'' (if strip s \<noteq> s then [(''w:space'', ''preserve'')] else []) s [] []] []"

definition wrap_tracked_change :: "string \<Rightarrow> elem \<Rightarrow> string \<Rightarrow> string \<Rightarrow> elem" where
  "wrap_tracked_change change_type run_element auth dat =
     Elem (if change_type = ''insert'' then ''w:ins'' else ''w:del'')
       [(''w:author'', auth), (''w:date'', dat)] [] [run_element] []"

text \<open>Lines 138 to 148: the text that the span covers, as the loop collects it.\<close>

definition changed_text_of :: "string list \<Rightarrow> nat \<Rightarrow> nat \<Rightarrow> nat \<Rightarrow> nat \<Rightarrow> string" where
  "changed_text_of run_texts start_run_idx start_offset end_run_idx end_offset =
     concat (map (\<lambda>run_i.
                    let rt = run_texts ! run_i
                    in if run_i = start_run_idx then drop start_offset rt
                       else if run_i = end_run_idx then take end_offset rt
                       else rt)
               [start_run_idx..<end_run_idx + 1])"

text \<open>
  Lines 154 to 174 on the child list of \<open>parent\<close>: the children at the positions
  \<open>removed\<close> (the old runs) go, then the before run, the wrapped run and the after run
  are inserted from position \<open>start_run_idx\<close> on.
\<close>

definition splice_kids ::
  "nat set \<Rightarrow> nat \<Rightarrow> string \<Rightarrow> elem \<Rightarrow> string \<Rightarrow> elem list \<Rightarrow> elem list" where
  "splice_kids removed start_run_idx before_text wrapped after_text ks =
     (let ks0 = nths ks (- removed);
          insert_pos = start_run_idx;
          ks1 = (if before_text \<noteq> [] then insert_at insert_pos (create_run before_text) ks0
                 else ks0);
          insert_pos1 = (if before_text \<noteq> [] then insert_pos + 1 else insert_pos);
          ks2 = insert_at insert_pos1 wrapped ks1;
          insert_pos2 = insert_pos1 + 1
      in if after_text \<noteq> [] then insert_at insert_pos2 (create_run after_text) ks2 else ks2)"

text \<open>
  Lines 88 to 177 for one paragraph: \<open>Inr None\<close> is \<open>continue\<close>, \<open>Inr (Some p')\<close> the
  paragraph after the change. \<open>run_texts[None]\<close> raises \<open>TypeError\<close> when the walk set no
  start; \<open>parent.remove\<close> raises \<open>ValueError\<close> for a run that is not a child of \<open>parent\<close>.
\<close>

definition para_text :: "elem \<Rightarrow> string" where
  "para_text p = concat (map (\<lambda>r. xpath_text ''w:t'' (snd r)) (findall ''w:r'' p))"

definition apply_to_paragraph :: "string \<Rightarrow> string \<Rightarrow> string \<Rightarrow> elem \<Rightarrow> error + elem option" where
  "apply_to_paragraph c_text c_type dat p =
     (let runs = findall ''w:r'' p;
          run_texts = map (\<lambda>r. xpath_text ''w:t'' (snd r)) runs
      in case locate run_texts c_text of
           Inl e \<Rightarrow> Inl e
         | Inr None \<Rightarrow> Inr None
         | Inr (Some (None, end_run_idx, end_offset)) \<Rightarrow> Inl TypeError
         | Inr (Some (Some (start_run_idx, start_offset), end_run_idx, end_offset)) \<Rightarrow>
             (let before_text = take start_offset (run_texts ! start_run_idx);
                  changed_text = changed_text_of run_texts start_run_idx start_offset
                                   end_run_idx end_offset;
                  after_text = drop end_offset (run_texts ! end_run_idx);
                  parent = butlast (fst (runs ! start_run_idx));
                  covered = [start_run_idx..<end_run_idx + 1]
              in if \<exists>run_i \<in> set covered. butlast (fst (runs ! run_i)) \<noteq> parent
                 then Inl ValueError
                 else Inr (Some (update_kids parent
                        (splice_kids ((\<lambda>run_i. last (fst (runs ! run_i))) ` set covered)
                           start_run_idx before_text
                           (wrap_tracked_change c_type (create_run changed_text)
                              ''AutoScript'' dat)
                           after_text)
                        p))))"

text \<open>
  Lines 86 to 177: the loop over the paragraphs for one change stops at the first
  paragraph whose text holds the needle. The flag is \<open>applied\<close>.
\<close>

fun apply_to_first :: "string \<Rightarrow> string \<Rightarrow> string \<Rightarrow> elem list \<Rightarrow> error + elem list \<times> bool" where
  "apply_to_first c_text c_type dat [] = Inr ([], False)"
| "apply_to_first c_text c_type dat (p # ps) =
     (case apply_to_paragraph c_text c_type dat p of
        Inl e \<Rightarrow> Inl e
      | Inr (Some p') \<Rightarrow> Inr (p' # ps, True)
      | Inr None \<Rightarrow>
          (case apply_to_first c_text c_type dat ps of
             Inl e \<Rightarrow> Inl e
           | Inr (ps', applied) \<Rightarrow> Inr (p # ps', applied)))"

text \<open>
  \<open>apply_tracked_changes_to_chinese_doc\<close> on the paragraphs of the document (the
  elements \<open>.//w:p\<close> selects, none inside another); a change is its \<open>type\<close> and its
  \<open>chinese_text\<close>, and \<open>utcnow n\<close> is the date the clock gives for the \<open>n\<close>-th change. A
  change that is not applied only prints a warning.
\<close>

fun apply_tracked_changes ::
  "(nat \<Rightarrow> string) \<Rightarrow> nat \<Rightarrow> (string \<times> string) list \<Rightarrow> elem list \<Rightarrow> error + elem list" where
  "apply_tracked_changes utcnow n [] paragraphs = Inr paragraphs"
| "apply_tracked_changes utcnow n ((c_type, c_text) # changes_map) paragraphs =
     (case apply_to_first c_text c_type (utcnow n) paragraphs of
        Inl e \<Rightarrow> Inl e
      | Inr (paragraphs', applied) \<Rightarrow>
          apply_tracked_changes utcnow (Suc n) changes_map paragraphs')"

text \<open>Sample paragraphs.\<close>

definition one_run :: elem where
  "one_run = Elem ''w:p'' [] [] [run_of ''Hello world''] []"

definition with_ppr :: elem where
  "with_ppr = Elem ''w:p'' [] [] [Elem ''w:pPr'' [] [] [] [], run_of ''A'', run_of ''B'', run_of ''C''] []"

definition dup_archive :: archive where
  "dup_archive = [(''a'', ''1''), (''word/document.xml'', ''x''), (''a'', ''2'')]"

definition plain_archive :: archive where
  "plain_archive = [(''[Content_Types].xml'', ''c''), (''word/document.xml'', ''x''),
                    (''word/styles.xml'', ''s'')]"






definition twin_paragraphs :: "elem list" where
  "twin_paragraphs = [two_runs, one_run]"

definition spliced_two_runs :: elem where
  "spliced_two_runs =
     Elem ''w:p'' [] []
       [Elem ''w:r'' [] [] [Elem ''w:t'' [] ''Hel'' [] []] [],
        Elem ''w:ins'' [(''w:author'', ''AutoScript''), (''w:date'', ''D'')] []
          [Elem ''w:r'' [] [] [Elem ''w:t'' [] ''lo wo'' [] []] []] [],
        Elem ''w:r'' [] [] [Elem ''w:t'' [] ''rld'' [] []] []] []"

section \<open>Stating what the splicers do\<close>

text \<open>
  The three parts into which \<open>_apply_deletion_change\<close> cuts the text of a covered run,
  and the runs that take the place of the covered run: a copy of the run with the text
  before the deleted part (when there is such text), the deletion run, and a copy of the
  run with the text after the deleted part (when there is such text).
\<close>

definition before_part :: "run_info \<Rightarrow> string" where
  "before_part ri = take (delete_start_in_run ri) (rtext ri)"

definition deleted_part :: "run_info \<Rightarrow> string" where
  "deleted_part ri =
     take (delete_end_in_run ri - delete_start_in_run ri) (drop (delete_start_in_run ri) (rtext ri))"

definition after_part :: "run_info \<Rightarrow> string" where
  "after_part ri = drop (delete_end_in_run ri) (rtext ri)"

definition replacement_runs :: "change \<Rightarrow> elem \<Rightarrow> run_info \<Rightarrow> elem list" where
  "replacement_runs chg run ri =
     (if before_part ri \<noteq> [] then [set_t_text (before_part ri) run] else [])
     @ [track_changes_element Deletion (deleted_part ri)
          (author chg) (date chg) (change_id chg)]
     @ (if after_part ri \<noteq> [] then [set_t_text (after_part ri) run] else [])"

text \<open>
  A child list \<open>ks\<close> from position \<open>from\<close> on, in which every covered run (the child
  at position \<open>child ri\<close>, for the entries \<open>ri\<close> in ascending order) has given way to its
  replacement runs and every other child stands as it was.
\<close>

fun rewritten_from :: "change \<Rightarrow> elem list \<Rightarrow> nat \<Rightarrow> run_info list \<Rightarrow> elem list" where
  "rewritten_from chg ks from [] = drop from ks"
| "rewritten_from chg ks from (ri # todo) =
     take (child ri - from) (drop from ks)
     @ replacement_runs chg (ks ! child ri) ri
     @ rewritten_from chg ks (Suc (child ri)) todo"

text \<open>
  A paragraph whose children are all runs, none of which holds a run of its own: the
  runs that \<open>findall\<close> gives are then the children, in order.
\<close>

definition flat_paragraph :: "elem \<Rightarrow> bool" where
  "flat_paragraph p = (\<forall>k \<in> set (kids p). tag k = ''w:r'' \<and> findall ''w:r'' k = [])"

text \<open>
  A run that holds its text in one \<open>w:t\<close> child without children, with no \<open>w:t\<close>
  anywhere in or below its other children (the shape of a run that Word writes: an
  optional \<open>w:rPr\<close> and one \<open>w:t\<close>).
\<close>

definition no_t_inside :: "elem \<Rightarrow> bool" where
  "no_t_inside k = (\<forall>d \<in> set (k # descendants k). tag d \<noteq> ''w:t'')"

definition plain_run :: "elem \<Rightarrow> bool" where
  "plain_run run =
     (\<exists>pre a s ta post. kids run = pre @ [Elem ''w:t'' a s [] ta] @ post
        \<and> (\<forall>k \<in> set pre \<union> set post. no_t_inside k))"

definition deleted_two_runs :: elem where
  "deleted_two_runs =
     Elem ''w:p'' [] []
       [Elem ''w:r'' [] [] [Elem ''w:t'' [(''xml:space'', ''preserve'')] ''Hel'' [] []] [],
        Elem ''w:r'' [] []
          [Elem ''w:del'' [(''w:author'', ''Ann''), (''w:date'', ''d''), (''w:id'', ''7'')] []
             [Elem ''w:delText'' [(''xml:space'', ''preserve'')] ''lo '' [] []] []] [],
        Elem ''w:r'' [] []
          [Elem ''w:del'' [(''w:author'', ''Ann''), (''w:date'', ''d''), (''w:id'', ''7'')] []
             [Elem ''w:delText'' [(''xml:space'', ''preserve'')] ''wo'' [] []] []] [],
        Elem ''w:r'' [] [] [Elem ''w:t'' [(''xml:space'', ''preserve'')] ''rld'' [] []] []] []"



section \<open>Facts about find\<close>




section \<open>Facts about the locator of docs.py\<close>




section \<open>Insertion and the clamp\<close>





text \<open>
  The locator is specified for a needle that is not empty, and its caller passes no
  other. Outside that contract, with an empty needle, \<open>find\<close> returns 0; on a paragraph
  without runs the walk then finds nothing and the clamp reads the last of no runs.
\<close>

lemma locate_empty_needle_without_runs: "locate [] [] = Inl IndexError"
  by (simp add: locate_def)



lemma tag_track_changes_element [simp]:
  "tag (track_changes_element ct t a d c) = ''w:r''"
  by (cases ct) (simp_all add: track_changes_element_def)

lemma create_track_changes_element_Inr:
  "create_track_changes_element ct t a d c = Inr r \<Longrightarrow> r = track_changes_element ct t a d c"
  by (simp add: create_track_changes_element_def split: if_splits)

lemma create_track_changes_element_cases:
  "create_track_changes_element ct t a d c = Inl ValueError
   \<or> create_track_changes_element ct t a d c = Inr (track_changes_element ct t a d c)"
  by (simp add: create_track_changes_element_def)

lemma create_track_changes_element_ok:
  "xml_compatible a \<Longrightarrow> xml_compatible d \<Longrightarrow> xml_compatible c \<Longrightarrow> xml_compatible t \<Longrightarrow>
   create_track_changes_element ct t a d c = Inr (track_changes_element ct t a d c)"
  by (simp add: create_track_changes_element_def)

lemma kids_set_kids [simp]: "kids (set_kids e ks) = ks"
  by (simp add: set_kids_def)

lemma tag_set_kids [simp]: "tag (set_kids e ks) = tag e"
  by (simp add: set_kids_def)



section \<open>Extraction\<close>

text \<open>
  Claim C4. A paragraph with the run \<open>keep \<close> and a run that holds only the deleted
  text \<open>gone\<close> under a deletion marker: the deletion is reported, but the deleted run
  has no \<open>w:t\<close> text, is dropped from \<open>runs_info\<close> by the test of line 34, and adds
  nothing to \<open>original_context\<close>, which is \<open>keep\<close> and not \<open>keep gone\<close>.
\<close>

theorem C4_deleted_run_missing_from_original_context:
  "map (\<lambda>c. (ctype c, ctext c, original_context c, current_context c))
     (extract_changes_from_english_docx envA
        (doc_of [Elem ''w:p'' [] [] [run_of ''keep '', deleted_run] []]))
   = [(Deletion, ''gone'', ''keep'', ''keep'')]"
  by (simp add: extract_changes_from_english_docx_def body_paragraphs_def doc_of_def
      run_of_def deleted_run_def paragraph_changes_def original_paragraph_text_def
      current_paragraph_text_def get_paragraph_text_with_structure_def run_parts_def
      xpath_child_def xpath_desc_def xpath_text_def strip_def isspace_def get_attr_def
      envA_def Let_def)

lemma marker_records_unstamp:
  "map unstamp (marker_records e1 k orig cur para_idx n1 ms)
     = map unstamp (marker_records e2 k orig cur para_idx n2 ms)"
  by (induction ms arbitrary: n1 n2) (simp_all add: Let_def unstamp_def)

lemma marker_records_stamped:
  "\<forall>m \<in> set ms. stamped m \<Longrightarrow>
   marker_records e1 k orig cur para_idx n1 ms = marker_records e2 k orig cur para_idx n2 ms"
  by (induction ms arbitrary: n1 n2) (auto simp: Let_def stamped_def get_attr_def)

lemma paragraph_changes_unstamp:
  "map unstamp (paragraph_changes e1 para_idx n1 p)
     = map unstamp (paragraph_changes e2 para_idx n2 p)"
  unfolding paragraph_changes_def Let_def
  using marker_records_unstamp [of e1 Insertion _ _ para_idx n1 _ e2 n2]
        marker_records_unstamp [of e1 Deletion _ _ para_idx _ _ e2 _]
  by simp

lemma paragraph_changes_stamped:
  assumes "\<forall>m \<in> set (xpath_desc ''w:ins'' p @ xpath_desc ''w:del'' p). stamped m"
  shows "paragraph_changes e1 para_idx n1 p = paragraph_changes e2 para_idx n2 p"
proof -
  have i: "\<forall>m \<in> set (xpath_desc ''w:ins'' p). stamped m"
    and d: "\<forall>m \<in> set (xpath_desc ''w:del'' p). stamped m" using assms by auto
  show ?thesis
    unfolding paragraph_changes_def Let_def
    using marker_records_stamped [OF i, of e1 Insertion _ _ para_idx n1 e2 n2]
          marker_records_stamped [OF d, of e1 Deletion _ _ para_idx _ e2 _]
    by simp
qed

lemma extract_loop_unstamp:
  "map unstamp (extract_loop e1 para_idx n1 ps) = map unstamp (extract_loop e2 para_idx n2 ps)"
proof (induction ps arbitrary: para_idx n1 n2)
  case Nil
  show ?case by simp
next
  case (Cons p ps)
  show ?case
    using paragraph_changes_unstamp [of e1 para_idx n1 p e2 n2] Cons.IH
    by (simp add: Let_def)
qed

lemma extract_loop_stamped:
  "\<forall>p \<in> set ps. \<forall>m \<in> set (xpath_desc ''w:ins'' p @ xpath_desc ''w:del'' p). stamped m \<Longrightarrow>
   extract_loop e1 para_idx n1 ps = extract_loop e2 para_idx n2 ps"
proof (induction ps arbitrary: para_idx n1 n2)
  case Nil
  show ?case by simp
next
  case (Cons p ps)
  have h: "\<forall>m \<in> set (xpath_desc ''w:ins'' p @ xpath_desc ''w:del'' p). stamped m"
    using Cons.prems by simp
  have r: "\<forall>p \<in> set ps. \<forall>m \<in> set (xpath_desc ''w:ins'' p @ xpath_desc ''w:del'' p). stamped m"
    using Cons.prems by simp
  show ?case
    using paragraph_changes_stamped [OF h, of e1 para_idx n1 e2 n2] Cons.IH [OF r]
    by (simp add: Let_def)
qed

text \<open>
  Claim C7, as stated: two passes over one document give the same records. An insertion
  marker without \<open>w:date\<close> and \<open>w:id\<close> gets the time and a fresh identifier of each
  pass, so the passes differ.
\<close>

theorem C7_two_passes_differ:
  "extract_changes_from_english_docx envA
      (doc_of [Elem ''w:p'' [] [] [run_of ''keep '',
         Elem ''w:ins'' [] [] [run_of ''new''] []] []])
   \<noteq> extract_changes_from_english_docx envB
      (doc_of [Elem ''w:p'' [] [] [run_of ''keep '',
         Elem ''w:ins'' [] [] [run_of ''new''] []] []])"
  by (simp add: extract_changes_from_english_docx_def body_paragraphs_def doc_of_def
      run_of_def paragraph_changes_def original_paragraph_text_def
      current_paragraph_text_def get_paragraph_text_with_structure_def run_parts_def
      xpath_child_def xpath_desc_def xpath_text_def strip_def isspace_def get_attr_def
      envA_def envB_def Let_def)

text \<open>
  Claim C7, amended. Two passes over one document, whatever the clock and the random
  source give, yield records that agree one by one and in order on everything but the
  timestamp and the identifier; and they yield the same records when every insertion and
  deletion marker of the body paragraphs carries \<open>w:date\<close> and \<open>w:id\<close>.
\<close>

theorem C7_re_extraction:
  "map unstamp (extract_changes_from_english_docx e1 doc_root)
     = map unstamp (extract_changes_from_english_docx e2 doc_root)
   \<and> (all_stamped doc_root \<longrightarrow>
        extract_changes_from_english_docx e1 doc_root
          = extract_changes_from_english_docx e2 doc_root)"
  unfolding extract_changes_from_english_docx_def all_stamped_def
  using extract_loop_unstamp [of e1 0 0 _ e2 0] extract_loop_stamped [of _ e1 0 0 e2 0]
  by blast

theorem C7_re_extraction_witness:
  "all_stamped (doc_of [Elem ''w:p'' [] [] [run_of ''keep '', deleted_run] []])
   \<and> extract_changes_from_english_docx envA
        (doc_of [Elem ''w:p'' [] [] [run_of ''keep '', deleted_run] []])
     = extract_changes_from_english_docx envB
        (doc_of [Elem ''w:p'' [] [] [run_of ''keep '', deleted_run] []])"
proof -
  have a: "all_stamped (doc_of [Elem ''w:p'' [] [] [run_of ''keep '', deleted_run] []])"
    by (simp add: all_stamped_def body_paragraphs_def doc_of_def run_of_def deleted_run_def
        xpath_desc_def stamped_def)
  show ?thesis
    using a C7_re_extraction [of envA "doc_of [Elem ''w:p'' [] [] [run_of ''keep '', deleted_run] []]" envB]
    by blast
qed

section \<open>The output archive\<close>

lemma zip_read_distinct:
  "distinct (map fst z) \<Longrightarrow> (n, d) \<in> set z \<Longrightarrow> zip_read z n = Some d"
  unfolding zip_read_def by (rule map_of_is_SomeI) (simp_all add: rev_map [symmetric])

lemma copy_entries_distinct:
  "distinct (map fst z) \<Longrightarrow> set items \<subseteq> set z \<Longrightarrow>
   copy_entries z items = Inr (filter (\<lambda>e. fst e \<noteq> ''word/document.xml'') items)"
proof (induction items)
  case Nil
  show ?case by simp
next
  case (Cons it items)
  obtain n d where it: "it = (n, d)" by (cases it)
  from Cons.prems it have "zip_read z n = Some d" by (auto intro: zip_read_distinct)
  moreover from Cons have
    "copy_entries z items = Inr (filter (\<lambda>e. fst e \<noteq> ''word/document.xml'') items)" by simp
  ultimately show ?case using it by simp
qed

lemma extractall_zip_read: "extractall z = zip_read z"
proof (induction z rule: rev_induct)
  case Nil
  show ?case by (simp add: extractall_def zip_read_def)
next
  case (snoc e z)
  obtain n d where e: "e = (n, d)" by (cases e)
  from snoc have "foldl (\<lambda>fs (name, bytes). fs(name \<mapsto> bytes)) Map.empty z = map_of (rev z)"
    by (simp add: extractall_def zip_read_def fun_eq_iff)
  then show ?case unfolding e by (auto simp: extractall_def zip_read_def fun_eq_iff)
qed

text \<open>
  When no two entries of the input archive have the same name, both programs copy
  every entry other than \<open>word/document.xml\<close> with its name and its bytes:
  \<open>_create_updated_docx\<close> writes them in the input's order, followed by the regenerated
  \<open>word/document.xml\<close>, and the directory \<open>docs.py\<close> packs holds each of them under
  its name.
\<close>

lemma other_entries_copied:
  assumes "distinct (map fst z_in)"
  shows "write_output z_in final_xml_string =
           Inr (filter (\<lambda>e. fst e \<noteq> ''word/document.xml'') z_in
                @ [(''word/document.xml'', final_xml_string)])"
    and "create_updated_docx llm parse tostring z_in changes = Inr (s, z_out) \<Longrightarrow>
              (\<exists>xml. z_out = filter (\<lambda>e. fst e \<noteq> ''word/document.xml'') z_in
                               @ [(''word/document.xml'', xml)])"
    and "rezip z_in document_xml = Inr files \<Longrightarrow> (n, d) \<in> set z_in \<Longrightarrow>
           n \<noteq> ''word/document.xml'' \<Longrightarrow> files n = Some d"
    and "rezip z_in document_xml = Inr files \<Longrightarrow>
           files ''word/document.xml'' = Some document_xml \<and>
           dom files = fst ` set z_in"
proof -
  have w: "\<And>x. write_output z_in x =
           Inr (filter (\<lambda>e. fst e \<noteq> ''word/document.xml'') z_in @ [(''word/document.xml'', x)])"
    using copy_entries_distinct [OF assms, of z_in] by (simp add: write_output_def)
  show "write_output z_in final_xml_string =
           Inr (filter (\<lambda>e. fst e \<noteq> ''word/document.xml'') z_in
                @ [(''word/document.xml'', final_xml_string)])" by (rule w)
  show "create_updated_docx llm parse tostring z_in changes = Inr (s, z_out) \<Longrightarrow>
        \<exists>xml. z_out = filter (\<lambda>e. fst e \<noteq> ''word/document.xml'') z_in
                               @ [(''word/document.xml'', xml)]"
    unfolding create_updated_docx_def Let_def
    by (auto simp: w split: option.splits sum.splits)
  show "rezip z_in document_xml = Inr files \<Longrightarrow> (n, d) \<in> set z_in \<Longrightarrow>
           n \<noteq> ''word/document.xml'' \<Longrightarrow> files n = Some d"
    using zip_read_distinct [OF assms, of n d]
    by (auto simp: rezip_def extractall_zip_read split: option.splits)
  show "files ''word/document.xml'' = Some document_xml \<and> dom files = fst ` set z_in"
    if r: "rezip z_in document_xml = Inr files"
  proof -
    from r obtain old_xml where o: "zip_read z_in ''word/document.xml'' = Some old_xml"
      and f: "files = (zip_read z_in)(''word/document.xml'' \<mapsto> document_xml)"
      by (auto simp: rezip_def extractall_zip_read split: option.splits)
    have d: "dom (zip_read z_in) = fst ` set z_in"
      unfolding zip_read_def dom_map_of_conv_image_fst by simp
    from o have "''word/document.xml'' \<in> dom (zip_read z_in)" by blast
    then have "dom files = dom (zip_read z_in)" unfolding f by auto
    with d f show ?thesis by simp
  qed
qed

text \<open>
  Claim C5: every entry but \<open>word/document.xml\<close> is copied unchanged. In
  \<open>_create_updated_docx\<close> the loop holds each entry but reads its bytes by name, so
  of two entries called \<open>a\<close> the first one leaves with the bytes of the second. In
  \<open>docs.py\<close> the two entries are written to one file, and the output holds the bytes
  of the second under that name and the bytes of the first nowhere.
\<close>

theorem C5_duplicate_names_not_copied:
  "write_output [(''a'', ''1''), (''word/document.xml'', ''x''), (''a'', ''2'')] ''y''
     = Inr [(''a'', ''2''), (''a'', ''2''), (''word/document.xml'', ''y'')]
   \<and> (\<exists>files. rezip [(''a'', ''1''), (''word/document.xml'', ''x''), (''a'', ''2'')] ''y''
                 = Inr files
        \<and> files ''a'' = Some ''2'' \<and> ''1'' \<notin> ran files)"
proof -
  have "extractall [(''a'', ''1''), (''word/document.xml'', ''x''), (''a'', ''2'')]
          = [''a'' \<mapsto> ''2'', ''word/document.xml'' \<mapsto> ''x'']"
    by (auto simp: extractall_def fun_eq_iff)
  then have "rezip [(''a'', ''1''), (''word/document.xml'', ''x''), (''a'', ''2'')] ''y''
          = Inr [''a'' \<mapsto> ''2'', ''word/document.xml'' \<mapsto> ''y'']"
    by (auto simp: rezip_def fun_eq_iff)
  moreover have "''1'' \<notin> ran [''a'' \<mapsto> ''2'', ''word/document.xml'' \<mapsto> ''y'']"
    by (auto simp: ran_def)
  moreover have "write_output [(''a'', ''1''), (''word/document.xml'', ''x''), (''a'', ''2'')] ''y''
     = Inr [(''a'', ''2''), (''a'', ''2''), (''word/document.xml'', ''y'')]"
    by (simp add: write_output_def zip_read_def)
  ultimately show ?thesis by simp
qed

section \<open>Counting successes and failures\<close>





section \<open>Paragraph resolution\<close>

lemma chinese_para_map_snoc:
  "chinese_para_map (ps @ [p]) =
     (if strip (get_paragraph_text p) \<noteq> []
      then (chinese_para_map ps)(get_paragraph_text p \<mapsto> length ps)
      else chinese_para_map ps)"
  by (simp add: chinese_para_map_def enumerate_append_eq)

lemma chinese_para_map_last:
  "chinese_para_map ps t = Some i \<Longrightarrow>
   i < length ps \<and> get_paragraph_text (ps ! i) = t \<and> strip t \<noteq> []
     \<and> (\<forall>j<length ps. get_paragraph_text (ps ! j) = t \<longrightarrow> j \<le> i)"
proof (induction ps arbitrary: i rule: rev_induct)
  case Nil
  then show ?case by (simp add: chinese_para_map_def)
next
  case (snoc p ps)
  show ?case
  proof (cases "strip (get_paragraph_text p) \<noteq> [] \<and> get_paragraph_text p = t")
    case True
    then have "chinese_para_map (ps @ [p]) t = Some (length ps)"
      by (auto simp: chinese_para_map_snoc)
    with snoc.prems have i: "i = length ps" by simp
    have "\<forall>j<length (ps @ [p]). get_paragraph_text ((ps @ [p]) ! j) = t \<longrightarrow> j \<le> i"
      using i by simp
    moreover from True have "strip t \<noteq> []" "get_paragraph_text ((ps @ [p]) ! i) = t"
      using i by auto
    ultimately show ?thesis using i by simp
  next
    case False
    with snoc.prems have m: "chinese_para_map ps t = Some i"
      by (auto simp: chinese_para_map_snoc split: if_splits)
    from snoc.IH [OF m] have ih: "i < length ps" "get_paragraph_text (ps ! i) = t"
      "strip t \<noteq> []" "\<forall>j<length ps. get_paragraph_text (ps ! j) = t \<longrightarrow> j \<le> i" by simp_all
    from ih(3) False have ne: "get_paragraph_text p \<noteq> t" by auto
    have "\<forall>j<length (ps @ [p]). get_paragraph_text ((ps @ [p]) ! j) = t \<longrightarrow> j \<le> i"
    proof (intro allI impI)
      fix j assume j: "j < length (ps @ [p])" and e: "get_paragraph_text ((ps @ [p]) ! j) = t"
      show "j \<le> i"
      proof (cases "j < length ps")
        case True
        with e ih(4) show ?thesis by (simp add: nth_append)
      next
        case False
        with j have "j = length ps" by simp
        with e ne show ?thesis by simp
      qed
    qed
    with ih show ?thesis by (simp add: nth_append)
  qed
qed

lemma find_best_from_map:
  "find_best_chinese_paragraph_match llm k all_paras para_map = Inr (Some (ptext, i), k') \<Longrightarrow>
   para_map ptext = Some i"
  unfolding find_best_chinese_paragraph_match_def Let_def
  by (auto split: sum.splits option.splits if_splits list.splits)

lemma apply_to_paragraph_None:
  "apply_to_paragraph c_text c_type dat p = Inr None \<longleftrightarrow> py_find (para_text p) c_text = None"
  unfolding apply_to_paragraph_def Let_def locate_def para_text_def
  by (auto split: option.splits prod.splits if_splits)

lemma apply_to_first_first:
  "apply_to_first c_text c_type dat ps = Inr (ps', True) \<Longrightarrow>
   \<exists>i<length ps. (\<forall>j<i. py_find (para_text (ps ! j)) c_text = None)
       \<and> py_find (para_text (ps ! i)) c_text \<noteq> None
       \<and> apply_to_paragraph c_text c_type dat (ps ! i) = Inr (Some (ps' ! i))
       \<and> length ps' = length ps \<and> (\<forall>j<length ps. j \<noteq> i \<longrightarrow> ps' ! j = ps ! j)"
proof (induction ps arbitrary: ps')
  case Nil
  then show ?case by simp
next
  case (Cons p ps)
  show ?case
  proof (cases "apply_to_paragraph c_text c_type dat p")
    case (Inl e)
    with Cons.prems show ?thesis by simp
  next
    case (Inr r)
    show ?thesis
    proof (cases r)
      case (Some p')
      with Inr Cons.prems have ps': "ps' = p' # ps" by simp
      from Inr Some have "py_find (para_text p) c_text \<noteq> None"
        using apply_to_paragraph_None [of c_text c_type dat p] by auto
      with Inr Some ps' have
        "0 < length (p # ps) \<and> (\<forall>j<0. py_find (para_text ((p # ps) ! j)) c_text = None)
         \<and> py_find (para_text ((p # ps) ! 0)) c_text \<noteq> None
         \<and> apply_to_paragraph c_text c_type dat ((p # ps) ! 0) = Inr (Some (ps' ! 0))
         \<and> length ps' = length (p # ps)
         \<and> (\<forall>j<length (p # ps). j \<noteq> 0 \<longrightarrow> ps' ! j = (p # ps) ! j)"
        by (auto simp: nth_Cons')
      then show ?thesis by blast
    next
      case None
      with Inr Cons.prems obtain qs where q: "apply_to_first c_text c_type dat ps = Inr (qs, True)"
        and ps': "ps' = p # qs" by (auto split: sum.splits)
      from Cons.IH [OF q] obtain i where i: "i < length ps"
        "\<forall>j<i. py_find (para_text (ps ! j)) c_text = None"
        "py_find (para_text (ps ! i)) c_text \<noteq> None"
        "apply_to_paragraph c_text c_type dat (ps ! i) = Inr (Some (qs ! i))"
        "length qs = length ps" "\<forall>j<length ps. j \<noteq> i \<longrightarrow> qs ! j = ps ! j" by blast
      from Inr None have n: "py_find (para_text p) c_text = None"
        using apply_to_paragraph_None [of c_text c_type dat p] by simp
      have a: "\<forall>j<Suc i. py_find (para_text ((p # ps) ! j)) c_text = None"
        using n i(2) by (auto simp: nth_Cons' less_Suc_eq_0_disj)
      have b: "\<forall>j<length (p # ps). j \<noteq> Suc i \<longrightarrow> ps' ! j = (p # ps) ! j"
        using ps' i(6) by (auto simp: nth_Cons')
      from a b i ps' have
        "Suc i < length (p # ps) \<and> (\<forall>j<Suc i. py_find (para_text ((p # ps) ! j)) c_text = None)
         \<and> py_find (para_text ((p # ps) ! Suc i)) c_text \<noteq> None
         \<and> apply_to_paragraph c_text c_type dat ((p # ps) ! Suc i) = Inr (Some (ps' ! Suc i))
         \<and> length ps' = length (p # ps)
         \<and> (\<forall>j<length (p # ps). j \<noteq> Suc i \<longrightarrow> ps' ! j = (p # ps) ! j)"
        by simp
      then show ?thesis by blast
    qed
  qed
qed

lemma twin_find_best:
  "find_best_chinese_paragraph_match says_zero 0
        (all_chinese_paras twin_paragraphs) (chinese_para_map twin_paragraphs)
      = Inr (Some (''Hello world'', 1), 1)"
  by (simp add: twin_paragraphs_def two_runs_def one_run_def run_of_def get_paragraph_text_def
      xpath_text_def find_best_chinese_paragraph_match_def all_chinese_paras_def
      chinese_para_map_def get_llm_response_def says_zero_def first_int_def isdigit_def
      strip_def isspace_def enumerate_eq_zip Let_def)

lemma twin_apply_to_first:
  "apply_to_first ''lo wo'' ''insert'' ''D'' twin_paragraphs
     = Inr ([spliced_two_runs, one_run], True)"
  by code_simp

text \<open>
  Claim C6, as stated: of paragraphs with the same text the first is selected. In
  \<open>docx_processor.py\<close> two paragraphs read \<open>Hello world\<close>; the language model names
  index 0, and the element returned is the one at position 1, stored last under that
  text.
\<close>

theorem C6_text_keyed_map_selects_last:
  "get_paragraph_text (twin_paragraphs ! 0) = get_paragraph_text (twin_paragraphs ! 1)
   \<and> find_best_chinese_paragraph_match says_zero 0
        (all_chinese_paras twin_paragraphs) (chinese_para_map twin_paragraphs)
      = Inr (Some (''Hello world'', 1), 1)"
  using twin_find_best
  by (simp add: twin_paragraphs_def two_runs_def one_run_def run_of_def get_paragraph_text_def
      xpath_text_def)

text \<open>
  Claim C6, amended. In \<open>docs.py\<close> a change that is applied goes to the first paragraph,
  in document order, whose text holds the needle (so to the first of paragraphs with
  the same text), and every other paragraph stays as it is. In \<open>docx_processor.py\<close>
  the paragraph element returned for a matched text is the one stored in the map keyed
  by text: the last paragraph, in document order, that has this text.
\<close>

theorem C6_paragraph_resolution:
  "(apply_to_first c_text c_type dat ps = Inr (ps', True) \<longrightarrow>
      (\<exists>i<length ps. (\<forall>j<i. py_find (para_text (ps ! j)) c_text = None)
         \<and> py_find (para_text (ps ! i)) c_text \<noteq> None
         \<and> apply_to_paragraph c_text c_type dat (ps ! i) = Inr (Some (ps' ! i))
         \<and> length ps' = length ps \<and> (\<forall>j<length ps. j \<noteq> i \<longrightarrow> ps' ! j = ps ! j)))
   \<and> (find_best_chinese_paragraph_match llm k (all_chinese_paras chinese_paragraphs)
         (chinese_para_map chinese_paragraphs) = Inr (Some (ptext, el), k') \<longrightarrow>
        el < length chinese_paragraphs \<and> get_paragraph_text (chinese_paragraphs ! el) = ptext
        \<and> (\<forall>j<length chinese_paragraphs.
               get_paragraph_text (chinese_paragraphs ! j) = ptext \<longrightarrow> j \<le> el))"
  using apply_to_first_first [of c_text c_type dat ps ps']
        find_best_from_map [of llm k "all_chinese_paras chinese_paragraphs"
          "chinese_para_map chinese_paragraphs" ptext el k']
        chinese_para_map_last [of chinese_paragraphs ptext el]
  by blast

theorem C6_paragraph_resolution_witness:
  "apply_to_first ''lo wo'' ''insert'' ''D'' twin_paragraphs
     = Inr ([spliced_two_runs, one_run], True)
   \<and> find_best_chinese_paragraph_match says_zero 0
        (all_chinese_paras twin_paragraphs) (chinese_para_map twin_paragraphs)
      = Inr (Some (''Hello world'', 1), 1)
   \<and> (\<exists>i<length twin_paragraphs.
         py_find (para_text (twin_paragraphs ! i)) ''lo wo'' \<noteq> None
         \<and> apply_to_paragraph ''lo wo'' ''insert'' ''D'' (twin_paragraphs ! i)
             = Inr (Some ([spliced_two_runs, one_run] ! i)))
   \<and> get_paragraph_text (twin_paragraphs ! 1) = ''Hello world''"
proof -
  note th = C6_paragraph_resolution [of "''lo wo''" "''insert''" "''D''" twin_paragraphs
      "[spliced_two_runs, one_run]" says_zero 0 twin_paragraphs "''Hello world''" 1 1]
  from th twin_apply_to_first have
    a: "\<exists>i<length twin_paragraphs.
         py_find (para_text (twin_paragraphs ! i)) ''lo wo'' \<noteq> None
         \<and> apply_to_paragraph ''lo wo'' ''insert'' ''D'' (twin_paragraphs ! i)
             = Inr (Some ([spliced_two_runs, one_run] ! i))"
    by blast
  from th twin_find_best have b: "get_paragraph_text (twin_paragraphs ! 1) = ''Hello world''"
    by blast
  from twin_apply_to_first twin_find_best a b show ?thesis by blast
qed

section \<open>The deletion splicer of docx\_processor.py\<close>

lemma insert_at_append:
  "insert_at (length xs + length m) v (xs @ m @ zs) = xs @ m @ v # zs"
  by (simp add: insert_at_def)

lemma remove_at_append:
  "remove_at (length xs + length m) (xs @ m @ r # ys) = xs @ m @ ys"
  by (simp add: remove_at_def)

lemma delete_step_split:
  assumes ok: "fst (delete_step chg (xs @ r # ys) (ri\<lparr>child := length xs\<rparr>)) = None"
  shows "snd (delete_step chg (xs @ r # ys) (ri\<lparr>child := length xs\<rparr>)) =
     xs @ replacement_runs chg r (ri\<lparr>child := length xs\<rparr>) @ ys"
proof -
  let ?ri = "ri\<lparr>child := length xs\<rparr>"
  let ?t = "take (delete_end_in_run ?ri - delete_start_in_run ?ri)
              (drop (delete_start_in_run ?ri) (rtext ?ri))"
  have i0: "\<And>v zs. insert_at (length xs) v (xs @ zs) = xs @ v # zs"
    using insert_at_append [of xs "[]"] by simp
  have i1: "\<And>v u zs. insert_at (length xs + 1) v (xs @ u # zs) = xs @ u # v # zs"
    using insert_at_append [of xs "[u]" for u] by simp
  have i2: "\<And>v u w zs. insert_at (length xs + 2) v (xs @ u # w # zs) = xs @ u # w # v # zs"
    using insert_at_append [of xs "[u, w]" for u w] by simp
  have r1: "\<And>u zs. remove_at (length xs + 1) (xs @ u # r # zs) = xs @ u # zs"
    using remove_at_append [of xs "[u]" for u] by simp
  have r2: "\<And>u w zs. remove_at (length xs + 2) (xs @ u # w # r # zs) = xs @ u # w # zs"
    using remove_at_append [of xs "[u, w]" for u w] by simp
  have r3: "\<And>u w v zs. remove_at (length xs + 3) (xs @ u # w # v # r # zs) = xs @ u # w # v # zs"
    using remove_at_append [of xs "[u, w, v]" for u w v] by (simp add: numeral_3_eq_3)
  have n: "(xs @ r # ys) ! length xs = r" by simp
  have c: "create_track_changes_element Deletion ?t (author chg) (date chg) (change_id chg)
             = Inr (track_changes_element Deletion ?t (author chg) (date chg) (change_id chg))"
    using ok create_track_changes_element_cases [of Deletion ?t "author chg" "date chg" "change_id chg"]
    by (auto simp: delete_step_def Let_def)
  show ?thesis
  proof (cases "before_part ?ri = []")
    case b: True
    show ?thesis
    proof (cases "after_part ?ri = []")
      case True
      with b show ?thesis
        unfolding delete_step_def replacement_runs_def Let_def c
        using i0 r1 n
        by (simp add: before_part_def after_part_def deleted_part_def)
    next
      case False
      with b show ?thesis
        unfolding delete_step_def replacement_runs_def Let_def c
        using i0 i1 r2 n
        by (simp add: before_part_def after_part_def deleted_part_def numeral_2_eq_2)
    qed
  next
    case b: False
    show ?thesis
    proof (cases "after_part ?ri = []")
      case True
      with b show ?thesis
        unfolding delete_step_def replacement_runs_def Let_def c
        using i0 i1 r2 n
        by (simp add: before_part_def after_part_def deleted_part_def numeral_2_eq_2)
    next
      case False
      with b show ?thesis
        unfolding delete_step_def replacement_runs_def Let_def c
        using i0 i1 i2 r3 n
        by (simp add: before_part_def after_part_def deleted_part_def numeral_2_eq_2
            numeral_3_eq_3)
    qed
  qed
qed

lemma delete_step_net:
  assumes "child ri < length ks" and "delete_step chg ks ri = (None, ks')"
  shows "ks' =
           take (child ri) ks @ replacement_runs chg (ks ! child ri) ri @ drop (Suc (child ri)) ks"
proof -
  have ks: "ks = take (child ri) ks @ ks ! child ri # drop (Suc (child ri)) ks"
    using assms(1) by (rule id_take_nth_drop)
  have l: "length (take (child ri) ks) = child ri" using assms(1) by simp
  have ri: "ri\<lparr>child := length (take (child ri) ks)\<rparr> = ri" using l by simp
  note sp = delete_step_split
    [of chg "take (child ri) ks" "ks ! child ri" "drop (Suc (child ri)) ks" ri, unfolded ri]
  have e: "delete_step chg (take (child ri) ks @ ks ! child ri # drop (Suc (child ri)) ks) ri
             = (None, ks')"
    using ks assms(2) by simp
  have "fst (delete_step chg (take (child ri) ks @ ks ! child ri # drop (Suc (child ri)) ks) ri)
          = None" unfolding e by simp
  from sp [OF this] show ?thesis unfolding e by simp
qed

text \<open>
  A body of the loop raises exactly when lxml refuses the author, the date, the
  identifier or the deleted part; the before run is then in the paragraph, in front of
  the covered run.
\<close>

lemma delete_step_raises:
  "delete_step chg ks ri =
     (Some e, ks') \<longleftrightarrow>
   e = ValueError
   \<and> \<not> (xml_compatible (author chg) \<and> xml_compatible (date chg)
        \<and> xml_compatible (change_id chg) \<and> xml_compatible (deleted_part ri))
   \<and> ks' = (if before_part ri \<noteq> []
            then insert_at (child ri) (set_t_text (before_part ri) (ks ! child ri)) ks else ks)"
  by (auto simp: delete_step_def Let_def create_track_changes_element_def before_part_def
      deleted_part_def)

lemma delete_step_returns:
  "fst (delete_step chg ks ri) = None \<longleftrightarrow>
   xml_compatible (author chg) \<and> xml_compatible (date chg)
   \<and> xml_compatible (change_id chg) \<and> xml_compatible (deleted_part ri)"
  by (auto simp: delete_step_def Let_def create_track_changes_element_def deleted_part_def)

lemma delete_loop_snoc:
  "delete_loop chg ks (ris @ [ri]) =
     (case delete_loop chg ks ris of
        (Some e, ks') \<Rightarrow> (Some e, ks')
      | (None, ks') \<Rightarrow> delete_step chg ks' ri)"
proof (induction ris arbitrary: ks)
  case Nil
  show ?case by (cases "delete_step chg ks ri") (auto split: option.splits)
next
  case (Cons r ris)
  show ?case by (cases "delete_step chg ks r") (auto simp: Cons split: option.splits)
qed

lemma delete_loop_returns:
  "fst (delete_loop chg ks ris) = None \<longleftrightarrow>
   (ris = [] \<or> xml_compatible (author chg) \<and> xml_compatible (date chg)
        \<and> xml_compatible (change_id chg)) \<and> (\<forall>ri \<in> set ris. xml_compatible (deleted_part ri))"
proof (induction ris arbitrary: ks)
  case Nil
  show ?case by simp
next
  case (Cons r ris)
  show ?case
  proof (cases "delete_step chg ks r")
    case (Pair eo ks')
    show ?thesis
    proof (cases eo)
      case None
      with Pair delete_step_returns [of chg ks r] Cons [of ks'] show ?thesis by auto
    next
      case (Some e)
      with Pair delete_step_returns [of chg ks r] show ?thesis by auto
    qed
  qed
qed

lemma delete_loop_rewrites:
  assumes "sorted_wrt (<) (map child todo)"
    and "\<forall>ri \<in> set todo. from \<le> child ri \<and> child ri < length ks"
    and "delete_loop chg ks (rev todo) = (None, ks')"
  shows "ks' = take from ks @ rewritten_from chg ks from todo"
  using assms
proof (induction todo arbitrary: "from" ks')
  case Nil
  then show ?case by simp
next
  case (Cons ri todo)
  let ?c = "child ri"
  have c: "from \<le> ?c" "?c < length ks" using Cons.prems(2) by simp_all
  have s: "sorted_wrt (<) (map child todo)" using Cons.prems(1) by simp
  have b: "\<forall>r \<in> set todo. Suc ?c \<le> child r \<and> child r < length ks"
    using Cons.prems by auto
  from Cons.prems(3) obtain X where
    lX: "delete_loop chg ks (rev todo) = (None, X)" and sX: "delete_step chg X ri = (None, ks')"
    by (auto simp: delete_loop_snoc split: prod.splits option.splits)
  from Cons.IH [OF s b lX] have X: "X = take (Suc ?c) ks @ rewritten_from chg ks (Suc ?c) todo" .
  have lt: "length (take (Suc ?c) ks) = Suc ?c" using c by simp
  have cX: "?c < length X" using X lt by simp
  have tX: "take ?c X = take ?c ks" unfolding X using lt by (simp add: min_def)
  have nX: "X ! ?c = ks ! ?c" unfolding X using lt c by (simp add: nth_append)
  have dX: "drop (Suc ?c) X = rewritten_from chg ks (Suc ?c) todo" unfolding X using lt by simp
  have tk: "take ?c ks = take from ks @ take (?c - from) (drop from ks)"
    using c take_add [of "from" "?c - from" ks] by simp
  have "ks' = take ?c X @ replacement_runs chg (X ! ?c) ri @ drop (Suc ?c) X"
    using cX sX by (rule delete_step_net)
  also have "\<dots> = take ?c ks @ replacement_runs chg (ks ! ?c) ri
                    @ rewritten_from chg ks (Suc ?c) todo"
    by (simp only: tX nX dX)
  also have "\<dots> = take from ks @ rewritten_from chg ks from (ri # todo)"
    using tk by simp
  finally show ?case .
qed

lemma overlap_loop_entries:
  "ri \<in> set (overlap_loop delete_start delete_end i current_pos zs) \<Longrightarrow>
   \<exists>run. (child ri, run) \<in> set zs \<and> rtext ri = xpath_text ''w:t'' run"
proof (induction zs arbitrary: i current_pos)
  case Nil
  then show ?case by simp
next
  case (Cons z zs)
  obtain c run where z: "z = (c, run)" by (cases z)
  let ?rest = "overlap_loop delete_start delete_end (Suc i)
                 (current_pos + length (xpath_text ''w:t'' run)) zs"
  show ?case
  proof (cases "ri \<in> set ?rest")
    case True
    from Cons.IH [OF True] show ?thesis by auto
  next
    case False
    with Cons.prems z have "child ri = c \<and> rtext ri = xpath_text ''w:t'' run"
      by (auto simp: Let_def split: if_splits)
    with z show ?thesis by auto
  qed
qed

lemma overlap_loop_sorted:
  "sorted_wrt (<) (map fst zs) \<Longrightarrow>
   sorted_wrt (<) (map child (overlap_loop delete_start delete_end i current_pos zs))"
proof (induction zs arbitrary: i current_pos)
  case Nil
  show ?case by simp
next
  case (Cons z zs)
  obtain c run where z: "z = (c, run)" by (cases z)
  have s: "sorted_wrt (<) (map fst zs)" and l: "\<forall>y \<in> set zs. c < fst y"
    using Cons.prems z by auto
  have r: "\<forall>ri \<in> set (overlap_loop delete_start delete_end (Suc i)
              (current_pos + length (xpath_text ''w:t'' run)) zs). c < child ri"
  proof
    fix ri
    assume "ri \<in> set (overlap_loop delete_start delete_end (Suc i)
              (current_pos + length (xpath_text ''w:t'' run)) zs)"
    from overlap_loop_entries [OF this] obtain rn where "(child ri, rn) \<in> set zs" by blast
    with l show "c < child ri" by force
  qed
  show ?case
    using Cons.IH [OF s, of "Suc i" "current_pos + length (xpath_text ''w:t'' run)"] r z
    by (simp add: Let_def)
qed

lemma child_positions_props:
  "sorted_wrt (<) (child_positions tg p)"
  "c \<in> set (child_positions tg p) \<Longrightarrow> c < length (kids p) \<and> tag (kids p ! c) = tg"
  by (auto simp: child_positions_def intro: sorted_wrt_filter)

lemma xpath_child_nth:
  "xpath_child tg p = map ((!) (kids p)) (child_positions tg p)"
proof -
  have "filter (\<lambda>k. tag k = tg) ks = map ((!) ks) (filter (\<lambda>i. tag (ks ! i) = tg) [0..<length ks])"
    for ks :: "elem list"
  proof (induction ks rule: rev_induct)
    case Nil
    show ?case by simp
  next
    case (snoc k ks)
    have "map ((!) (ks @ [k])) (filter (\<lambda>i. tag ((ks @ [k]) ! i) = tg) [0..<length ks])
            = map ((!) ks) (filter (\<lambda>i. tag (ks ! i) = tg) [0..<length ks])"
      by (auto simp: nth_append intro!: map_cong filter_cong)
    with snoc show ?case by simp
  qed
  then show ?thesis by (simp add: xpath_child_def child_positions_def)
qed

lemma runs_to_modify_props:
  assumes "ri \<in> set (runs_to_modify p delete_start delete_end)"
  shows "child ri < length (kids p)" "tag (kids p ! child ri) = ''w:r''"
    "rtext ri = xpath_text ''w:t'' (kids p ! child ri)"
proof -
  from assms overlap_loop_entries obtain run where
    m: "(child ri, run) \<in> set (zip (child_positions ''w:r'' p) (xpath_child ''w:r'' p))"
    and t: "rtext ri = xpath_text ''w:t'' run"
    unfolding runs_to_modify_def by blast
  from m have c: "child ri \<in> set (child_positions ''w:r'' p)" by (rule set_zip_leftD)
  from m have "run = kids p ! child ri"
    unfolding xpath_child_nth by (auto simp: set_zip)
  with t child_positions_props(2) [OF c]
  show "child ri < length (kids p)" "tag (kids p ! child ri) = ''w:r''"
    "rtext ri = xpath_text ''w:t'' (kids p ! child ri)" by simp_all
qed

lemma runs_to_modify_sorted:
  "sorted_wrt (<) (map child (runs_to_modify p delete_start delete_end))"
proof -
  have "map fst (zip (child_positions ''w:r'' p) (xpath_child ''w:r'' p))
          = child_positions ''w:r'' p"
    unfolding xpath_child_nth by (simp add: map_fst_zip)
  then show ?thesis
    unfolding runs_to_modify_def
    using overlap_loop_sorted child_positions_props(1) by metis
qed

lemma tag_set_t_text [simp]: "tag (set_t_text s run) = tag run"
  by (simp add: set_t_text_def)

lemma replacement_runs_tags:
  "tag run = ''w:r'' \<Longrightarrow> filter (\<lambda>k. tag k = ''w:r'') (replacement_runs chg run ri)
     = replacement_runs chg run ri"
  by (simp add: replacement_runs_def)

lemma length_replacement_runs:
  "length (replacement_runs chg run ri) =
     1 + (if before_part ri \<noteq> [] then 1 else 0) + (if after_part ri \<noteq> [] then 1 else 0)"
  by (simp add: replacement_runs_def)

lemma count_rewritten_from:
  assumes "sorted_wrt (<) (map child todo)"
    and "\<forall>ri \<in> set todo. from \<le> child ri \<and> child ri < length ks \<and> tag (ks ! child ri) = ''w:r''"
  shows "length (filter (\<lambda>k. tag k = ''w:r'') (rewritten_from chg ks from todo)) =
           length (filter (\<lambda>k. tag k = ''w:r'') (drop from ks))
           + length (filter (\<lambda>ri. before_part ri \<noteq> []) todo)
           + length (filter (\<lambda>ri. after_part ri \<noteq> []) todo)"
  using assms
proof (induction todo arbitrary: "from")
  case Nil
  show ?case by simp
next
  case (Cons ri todo)
  let ?c = "child ri"
  let ?R = "\<lambda>k. tag k = ''w:r''"
  have c: "from \<le> ?c" "?c < length ks" "tag (ks ! ?c) = ''w:r''" using Cons.prems(2) by simp_all
  have s: "sorted_wrt (<) (map child todo)" using Cons.prems(1) by simp
  have b: "\<forall>r \<in> set todo. Suc ?c \<le> child r \<and> child r < length ks \<and> tag (ks ! child r) = ''w:r''"
    using Cons.prems by auto
  note ih = Cons.IH [OF s b]
  have lc: "?c - from < length (drop from ks)" using c by simp
  have d: "drop from ks = take (?c - from) (drop from ks) @ ks ! ?c # drop (Suc ?c) ks"
    using id_take_nth_drop [OF lc] c by (simp add: add.commute)
  have "length (filter ?R (drop from ks)) =
          length (filter ?R (take (?c - from) (drop from ks))) + 1
          + length (filter ?R (drop (Suc ?c) ks))"
    by (subst d) (simp add: c(3))
  moreover have "length (filter ?R (rewritten_from chg ks from (ri # todo))) =
          length (filter ?R (take (?c - from) (drop from ks)))
          + length (replacement_runs chg (ks ! ?c) ri)
          + length (filter ?R (rewritten_from chg ks (Suc ?c) todo))"
    using replacement_runs_tags [OF c(3), of chg ri] by simp
  ultimately show ?case using ih by (simp add: length_replacement_runs)
qed

lemma overlap_loop_no_before:
  "delete_start \<le> current_pos \<Longrightarrow>
   filter (\<lambda>ri. before_part ri \<noteq> []) (overlap_loop delete_start delete_end i current_pos zs) = []"
proof (induction zs arbitrary: i current_pos)
  case Nil
  show ?case by simp
next
  case (Cons z zs)
  obtain c run where z: "z = (c, run)" by (cases z)
  have "delete_start \<le> current_pos + length (xpath_text ''w:t'' run)" using Cons.prems by simp
  from Cons.IH [OF this] Cons.prems z show ?case
    by (simp add: Let_def before_part_def max_def)
qed

lemma overlap_loop_before_once:
  "length (filter (\<lambda>ri. before_part ri \<noteq> [])
     (overlap_loop delete_start delete_end i current_pos zs)) \<le> 1"
proof (induction zs arbitrary: i current_pos)
  case Nil
  show ?case by simp
next
  case (Cons z zs)
  obtain c run where z: "z = (c, run)" by (cases z)
  let ?re = "current_pos + length (xpath_text ''w:t'' run)"
  show ?case
  proof (cases "current_pos < delete_end \<and> ?re > delete_start")
    case True
    then have "delete_start \<le> ?re" by simp
    from overlap_loop_no_before [OF this] z True show ?thesis by (simp add: Let_def)
  next
    case False
    with Cons.IH [of "Suc i" ?re] z show ?thesis by (auto simp: Let_def)
  qed
qed

lemma overlap_loop_past_end:
  "delete_end \<le> current_pos \<Longrightarrow> overlap_loop delete_start delete_end i current_pos zs = []"
proof (induction zs arbitrary: i current_pos)
  case Nil
  show ?case by simp
next
  case (Cons z zs)
  obtain c run where z: "z = (c, run)" by (cases z)
  have "delete_end \<le> current_pos + length (xpath_text ''w:t'' run)" using Cons.prems by simp
  from Cons.IH [OF this] Cons.prems z show ?case by (simp add: Let_def)
qed

lemma overlap_loop_after_once:
  "length (filter (\<lambda>ri. after_part ri \<noteq> [])
     (overlap_loop delete_start delete_end i current_pos zs)) \<le> 1"
proof (induction zs arbitrary: i current_pos)
  case Nil
  show ?case by simp
next
  case (Cons z zs)
  obtain c run where z: "z = (c, run)" by (cases z)
  let ?re = "current_pos + length (xpath_text ''w:t'' run)"
  show ?case
  proof (cases "delete_end < ?re")
    case True
    then have "delete_end \<le> ?re" by simp
    from overlap_loop_past_end [OF this] z show ?thesis by (simp add: Let_def)
  next
    case False
    then have "after_part \<lparr>index = i, child = c, rtext = xpath_text ''w:t'' run,
                  run_start = current_pos, run_end = ?re,
                  delete_start_in_run = max current_pos delete_start - current_pos,
                  delete_end_in_run = min ?re delete_end - current_pos\<rparr> = []"
      by (simp add: after_part_def min_def)
    with Cons.IH [of "Suc i" ?re] z show ?thesis by (simp add: Let_def)
  qed
qed

lemma apply_deletion_change_result:
  assumes "apply_deletion_change llm k p chinese_text chg = (Inr True, p')"
  shows "\<exists>response delete_start.
           get_llm_response llm k = Inr response \<and> strip response \<noteq> []
           \<and> py_find chinese_text (strip response) = Some delete_start
           \<and> (let todo = runs_to_modify p delete_start (delete_start + length (strip response));
                   befores = length (filter (\<lambda>ri. before_part ri \<noteq> []) todo);
                   afters = length (filter (\<lambda>ri. after_part ri \<noteq> []) todo)
               in kids p' = rewritten_from chg (kids p) 0 todo
                  \<and> length (xpath_child ''w:r'' p') = length (xpath_child ''w:r'' p) + befores + afters
                  \<and> befores \<le> 1 \<and> afters \<le> 1)"
proof -
  from assms obtain response delete_start ks' where
    g: "get_llm_response llm k = Inr response" and ne: "strip response \<noteq> []"
    and f: "py_find chinese_text (strip response) = Some delete_start"
    and l: "delete_loop chg (kids p)
               (rev (runs_to_modify p delete_start (delete_start + length (strip response))))
             = (None, ks')"
    and p': "p' = set_kids p ks'"
    unfolding apply_deletion_change_def Let_def
    by (auto split: sum.splits option.splits if_splits prod.splits)
  let ?todo = "runs_to_modify p delete_start (delete_start + length (strip response))"
  have b: "\<forall>ri \<in> set ?todo. 0 \<le> child ri \<and> child ri < length (kids p)
             \<and> tag (kids p ! child ri) = ''w:r''"
    using runs_to_modify_props by blast
  then have b': "\<forall>ri \<in> set ?todo. 0 \<le> child ri \<and> child ri < length (kids p)" by blast
  have k: "kids p' = rewritten_from chg (kids p) 0 ?todo"
    using delete_loop_rewrites [OF runs_to_modify_sorted b' l] p' by simp
  have n: "length (xpath_child ''w:r'' p') = length (xpath_child ''w:r'' p)
             + length (filter (\<lambda>ri. before_part ri \<noteq> []) ?todo)
             + length (filter (\<lambda>ri. after_part ri \<noteq> []) ?todo)"
    using count_rewritten_from [OF runs_to_modify_sorted b, of chg] k
    by (simp add: xpath_child_def)
  have "length (filter (\<lambda>ri. before_part ri \<noteq> []) ?todo) \<le> 1"
    "length (filter (\<lambda>ri. after_part ri \<noteq> []) ?todo) \<le> 1"
    unfolding runs_to_modify_def
    by (rule overlap_loop_before_once, rule overlap_loop_after_once)
  with g ne f k n show ?thesis unfolding Let_def by blast
qed

section \<open>The splicer of docs.py\<close>

lemma locate_loop_bounds:
  "locate_loop idx n i current_pos st rts = (st', en) \<Longrightarrow>
   (\<forall>s so. st = Some (s, so) \<longrightarrow> s < i) \<Longrightarrow>
   (\<forall>s so. st' = Some (s, so) \<longrightarrow> s < i + length rts)
   \<and> (\<forall>e eo. en = Some (e, eo) \<longrightarrow>
         e < i + length rts \<and> (\<exists>s so. st' = Some (s, so) \<and> s \<le> e))"
proof (induction rts arbitrary: i current_pos st)
  case Nil
  then show ?case by auto
next
  case (Cons rt rts)
  define st1 where "st1 = (if st = None \<and> current_pos \<le> idx \<and> idx < current_pos + length rt
             then Some (i, idx - current_pos) else st)"
  have eq: "locate_loop idx n i current_pos st (rt # rts) =
     (if st1 \<noteq> None \<and> current_pos < idx + n \<and> idx + n \<le> current_pos + length rt
      then (st1, Some (i, idx + n - current_pos))
      else locate_loop idx n (Suc i) (current_pos + length rt) st1 rts)"
    unfolding st1_def by (simp only: locate_loop.simps Let_def)
  have b: "\<forall>s so. st1 = Some (s, so) \<longrightarrow> s < Suc i"
    using Cons.prems(2) by (auto simp: st1_def less_Suc_eq)
  define found where
    "found \<longleftrightarrow> st1 \<noteq> None \<and> current_pos < idx + n \<and> idx + n \<le> current_pos + length rt"
  from Cons.prems(1) have e2:
    "(if found then (st1, Some (i, idx + n - current_pos))
      else locate_loop idx n (Suc i) (current_pos + length rt) st1 rts) = (st', en)"
    unfolding eq found_def .
  show ?case
  proof (cases found)
    case True
    with e2 have r: "st' = st1" "en = Some (i, idx + n - current_pos)" by simp_all
    from True obtain s so where s: "st1 = Some (s, so)" unfolding found_def by auto
    with b have "s \<le> i" by auto
    with r s b show ?thesis by auto
  next
    case False
    with e2 have "locate_loop idx n (Suc i) (current_pos + length rt) st1 rts = (st', en)"
      by simp
    from Cons.IH [OF this b] show ?thesis by simp
  qed
qed

lemma locate_bounds:
  assumes "locate run_texts c_text = Inr (Some (Some (s, so), e, eo))"
  shows "s \<le> e \<and> e < length run_texts"
proof -
  from assms obtain idx where f: "py_find (concat run_texts) c_text = Some idx"
    by (auto simp: locate_def split: option.splits)
  obtain st en where l: "locate_loop idx (length c_text) 0 0 None run_texts = (st, en)"
    by (cases "locate_loop idx (length c_text) 0 0 None run_texts")
  from locate_loop_bounds [OF l] have
    b1: "\<forall>s so. st = Some (s, so) \<longrightarrow> s < length run_texts"
    and b2: "\<forall>e eo. en = Some (e, eo) \<longrightarrow>
         e < length run_texts \<and> (\<exists>s so. st = Some (s, so) \<and> s \<le> e)" by simp_all
  show ?thesis
  proof (cases en)
    case None
    with assms f l have "st = Some (s, so)" "e = length run_texts - 1" "run_texts \<noteq> []"
      by (auto simp: locate_def split: if_splits)
    with b1 show ?thesis by (cases run_texts) auto
  next
    case (Some x)
    obtain e' eo' where x: "x = (e', eo')" by (cases x)
    with Some assms f l have "st = Some (s, so)" "e = e'" by (auto simp: locate_def)
    with b2 Some x show ?thesis by auto
  qed
qed

lemma findall_from_flat:
  "\<forall>k \<in> set ks. tag k = tg \<and> findall tg k = [] \<Longrightarrow>
   findall_from tg i ks = map (\<lambda>(j, k). ([j], k)) (enumerate i ks)"
  by (induction ks arbitrary: i) simp_all

lemma findall_flat:
  assumes "flat_paragraph p"
  shows "findall ''w:r'' p = map (\<lambda>(j, k). ([j], k)) (enumerate 0 (kids p))"
proof (cases p)
  case (Elem t a tx ks ta)
  with assms have "\<forall>k \<in> set ks. tag k = ''w:r'' \<and> findall ''w:r'' k = []"
    by (simp add: flat_paragraph_def)
  from findall_from_flat [OF this] Elem show ?thesis by simp
qed

lemma map_snd_findall_from_shift:
  "map snd (findall_from tg i ks) = map snd (findall_from tg 0 ks)"
proof (induction ks arbitrary: i)
  case Nil
  show ?case by simp
next
  case (Cons k ks)
  have "map snd (findall_from tg (Suc i) ks) = map snd (findall_from tg 0 ks)"
    "map snd (findall_from tg (Suc 0) ks) = map snd (findall_from tg 0 ks)"
    using Cons.IH by blast+
  then show ?case by (simp add: o_def split_def)
qed

lemma map_snd_findall_from_append:
  "map snd (findall_from tg i (xs @ ys))
     = map snd (findall_from tg 0 xs) @ map snd (findall_from tg 0 ys)"
proof (induction xs arbitrary: i)
  case Nil
  show ?case using map_snd_findall_from_shift [of tg i ys] by simp
next
  case (Cons x xs)
  have "map snd (findall_from tg (Suc 0) xs) = map snd (findall_from tg 0 xs)"
    by (rule map_snd_findall_from_shift)
  with Cons.IH [of "Suc i"] show ?case by (simp add: o_def split_def)
qed

lemma map_snd_findall_from_runs:
  "\<forall>k \<in> set ks. tag k = tg \<and> findall tg k = [] \<Longrightarrow> map snd (findall_from tg 0 ks) = ks"
  by (simp add: findall_from_flat o_def split_def enumerate_eq_zip)

lemma findall_create_run [simp]: "findall ''w:r'' (create_run s) = []"
  by (simp add: create_run_def)

lemma tag_create_run [simp]: "tag (create_run s) = ''w:r''"
  by (simp add: create_run_def)

lemma xpath_text_create_run [simp]: "xpath_text ''w:t'' (create_run s) = s"
  by (simp add: create_run_def xpath_text_def)

lemma map_snd_findall_from_wrapped:
  "map snd (findall_from ''w:r'' i [wrap_tracked_change c_type (create_run s) a d])
     = [create_run s]"
  by (simp add: wrap_tracked_change_def)

lemma nths_without_interval:
  assumes "s \<le> e" "e < length ks"
  shows "nths ks (- {s..e}) = take s ks @ drop (Suc e) ks"
proof -
  have l: "length (take s ks) = s" using assms by simp
  have a: "nths (take s ks) (- {s..e}) = take s ks"
    by (rule nths_all) (simp add: l)
  have "{j. j + s \<in> - {s..e}} = {j. Suc e - s \<le> j}" using assms by auto
  then have b: "nths (drop s ks) {j. j + length (take s ks) \<in> - {s..e}} = drop (Suc e) ks"
    using assms l by (simp add: drop_eq_nths [symmetric])
  have "nths (take s ks @ drop s ks) (- {s..e}) = take s ks @ drop (Suc e) ks"
    unfolding nths_append a b ..
  then show ?thesis by simp
qed

lemma splice_kids_interval:
  assumes "s \<le> e" "e < length ks"
  shows "splice_kids {s..e} s before_text wrapped after_text ks =
           take s ks
           @ (if before_text \<noteq> [] then [create_run before_text] else [])
           @ [wrapped]
           @ (if after_text \<noteq> [] then [create_run after_text] else [])
           @ drop (Suc e) ks"
proof -
  let ?xs = "take s ks"
  have l: "length ?xs = s" using assms by simp
  have i0: "\<And>v zs. insert_at s v (?xs @ zs) = ?xs @ v # zs"
    using insert_at_append [of ?xs "[]"] l by simp
  have i1: "\<And>v u zs. insert_at (s + 1) v (?xs @ u # zs) = ?xs @ u # v # zs"
    using insert_at_append [of ?xs "[u]" for u] l by simp
  have i2: "\<And>v u w zs. insert_at (s + 1 + 1) v (?xs @ u # w # zs) = ?xs @ u # w # v # zs"
    using insert_at_append [of ?xs "[u, w]" for u w] l by simp
  show ?thesis
    unfolding splice_kids_def Let_def nths_without_interval [OF assms]
    using i0 i1 i2 by simp
qed

lemma flat_runs:
  assumes "flat_paragraph p"
  shows "map snd (findall ''w:r'' p) = kids p"
proof -
  have a: "map snd (map (\<lambda>(j, k). ([j], k)) (enumerate 0 (kids p))) = map snd (enumerate 0 (kids p))"
    by (rule nth_equalityI) (simp_all add: split_def nth_enumerate_eq)
  have b: "map snd (enumerate 0 (kids p)) = kids p" by (rule map_snd_enumerate)
  show ?thesis unfolding findall_flat [OF assms] a b ..
qed

lemma flat_run_texts:
  assumes "flat_paragraph p"
  shows "map (\<lambda>r. xpath_text ''w:t'' (snd r)) (findall ''w:r'' p)
           = map (xpath_text ''w:t'') (kids p)"
proof -
  have "map (\<lambda>r. xpath_text ''w:t'' (snd r)) (findall ''w:r'' p)
          = map (xpath_text ''w:t'') (map snd (findall ''w:r'' p))" by (simp add: o_def)
  then show ?thesis using flat_runs [OF assms] by simp
qed

lemma flat_paths:
  assumes "flat_paragraph p" "i < length (kids p)"
  shows "fst (findall ''w:r'' p ! i) = [i]"
  unfolding findall_flat [OF assms(1)] using assms(2) by (simp add: nth_enumerate_eq)

lemma apply_to_paragraph_flat:
  assumes flat: "flat_paragraph p"
    and ap: "apply_to_paragraph c_text c_type dat p = Inr (Some p')"
  shows "\<exists>s so e eo.
           locate (map (xpath_text ''w:t'') (kids p)) c_text = Inr (Some (Some (s, so), e, eo))
           \<and> s \<le> e \<and> e < length (kids p)
           \<and> kids p' =
               take s (kids p)
               @ (if take so (map (xpath_text ''w:t'') (kids p) ! s) \<noteq> []
                  then [create_run (take so (map (xpath_text ''w:t'') (kids p) ! s))] else [])
               @ [wrap_tracked_change c_type
                    (create_run (changed_text_of (map (xpath_text ''w:t'') (kids p)) s so e eo))
                    ''AutoScript'' dat]
               @ (if drop eo (map (xpath_text ''w:t'') (kids p) ! e) \<noteq> []
                  then [create_run (drop eo (map (xpath_text ''w:t'') (kids p) ! e))] else [])
               @ drop (Suc e) (kids p)"
proof -
  let ?rts = "map (xpath_text ''w:t'') (kids p)"
  let ?runs = "findall ''w:r'' p"
  note rt = flat_run_texts [OF flat]
  from ap obtain s so e eo where loc: "locate ?rts c_text = Inr (Some (Some (s, so), e, eo))"
    unfolding apply_to_paragraph_def Let_def rt
    by (auto split: sum.splits option.splits prod.splits if_splits)
  from locate_bounds [OF loc] have b: "s \<le> e" "e < length (kids p)" by simp_all
  have pth: "\<And>i. s \<le> i \<Longrightarrow> i \<le> e \<Longrightarrow> fst (?runs ! i) = [i]"
    using flat_paths [OF flat] b by simp
  have ps: "butlast (fst (?runs ! s)) = []" using pth [of s] b by simp
  have par: "\<not> (\<exists>run_i \<in> set [s..<e + 1].
                 butlast (fst (?runs ! run_i)) \<noteq> butlast (fst (?runs ! s)))"
  proof
    assume "\<exists>run_i \<in> set [s..<e + 1].
                 butlast (fst (?runs ! run_i)) \<noteq> butlast (fst (?runs ! s))"
    then obtain i where i: "s \<le> i" "i \<le> e" "butlast (fst (?runs ! i)) \<noteq> butlast (fst (?runs ! s))"
      by auto
    from pth [OF i(1,2)] ps i(3) show False by simp
  qed
  have im: "(\<lambda>run_i. last (fst (?runs ! run_i))) ` set [s..<e + 1] = {s..e}"
  proof -
    have "(\<lambda>run_i. last (fst (?runs ! run_i))) ` {s..e} = (\<lambda>i. i) ` {s..e}"
      by (rule image_cong) (simp_all add: pth)
    moreover have "set [s..<e + 1] = {s..e}" by auto
    ultimately show ?thesis by simp
  qed
  let ?res = "update_kids (butlast (fst (?runs ! s)))
        (splice_kids ((\<lambda>run_i. last (fst (?runs ! run_i))) ` set [s..<e + 1]) s
           (take so (?rts ! s))
           (wrap_tracked_change c_type (create_run (changed_text_of ?rts s so e eo))
              ''AutoScript'' dat)
           (drop eo (?rts ! e))) p"
  have u: "apply_to_paragraph c_text c_type dat p =
      (if \<exists>run_i \<in> set [s..<e + 1].
                 butlast (fst (?runs ! run_i)) \<noteq> butlast (fst (?runs ! s))
       then Inl ValueError else Inr (Some ?res))"
    unfolding apply_to_paragraph_def Let_def rt loc by (simp only: sum.case option.case prod.case)
  from u par have "apply_to_paragraph c_text c_type dat p = Inr (Some ?res)"
    by (simp only: if_not_P if_False)
  with ap have "p' = ?res" by simp
  then have p': "p' = update_kids []
        (splice_kids {s..e} s (take so (?rts ! s))
           (wrap_tracked_change c_type (create_run (changed_text_of ?rts s so e eo))
              ''AutoScript'' dat)
           (drop eo (?rts ! e))) p"
    unfolding ps im .
  have "kids (update_kids [] f p) = f (kids p)" for f by (cases p) simp
  with p' splice_kids_interval [OF b] loc b show ?thesis by auto
qed

section \<open>The two splicers together\<close>

lemma findall_kids: "findall tg e = findall_from tg 0 (kids e)"
  by (cases e) simp

lemma flat_sublist:
  "flat_paragraph p \<Longrightarrow> set xs \<subseteq> set (kids p) \<Longrightarrow> map snd (findall_from ''w:r'' 0 xs) = xs"
  by (rule map_snd_findall_from_runs) (auto simp: flat_paragraph_def)

lemma create_run_list:
  "map snd (findall_from ''w:r'' 0 (if s \<noteq> [] then [create_run s] else []))
     = (if s \<noteq> [] then [create_run s] else [])"
  by simp

lemma runs_after_splice:
  assumes flat: "flat_paragraph p"
    and k: "kids p' = take s (kids p)
               @ (if b \<noteq> [] then [create_run b] else [])
               @ [wrap_tracked_change c_type (create_run c) au d]
               @ (if a \<noteq> [] then [create_run a] else [])
               @ drop (Suc e) (kids p)"
  shows "map snd (findall ''w:r'' p') = take s (kids p)
               @ (if b \<noteq> [] then [create_run b] else [])
               @ [create_run c]
               @ (if a \<noteq> [] then [create_run a] else [])
               @ drop (Suc e) (kids p)"
proof -
  have t: "map snd (findall_from ''w:r'' 0 (take s (kids p))) = take s (kids p)"
    by (rule flat_sublist [OF flat]) (rule set_take_subset)
  have dr: "map snd (findall_from ''w:r'' 0 (drop (Suc e) (kids p))) = drop (Suc e) (kids p)"
    by (rule flat_sublist [OF flat]) (rule set_drop_subset)
  show ?thesis
    unfolding findall_kids [of _ p'] k map_snd_findall_from_append t dr create_run_list
      map_snd_findall_from_wrapped ..
qed

lemma index_range: "s < e \<Longrightarrow> [s..<e + 1] = s # [Suc s..<e] @ [e]"
  by (simp add: upt_conv_Cons)

lemma take_drop_map_nth:
  assumes "n \<le> length xs" "m \<le> n"
  shows "take (n - m) (drop m xs) = map ((!) xs) [m..<n]"
proof (rule nth_equalityI)
  show "length (take (n - m) (drop m xs)) = length (map ((!) xs) [m..<n])"
    using assms by simp
next
  fix i
  assume "i < length (take (n - m) (drop m xs))"
  then have "i < n - m" by simp
  then show "take (n - m) (drop m xs) ! i = map ((!) xs) [m..<n] ! i"
    using assms by simp
qed

lemma changed_text_multi:
  assumes "s < e" "e < length rts"
  shows "take so (rts ! s) @ changed_text_of rts s so e eo @ drop eo (rts ! e)
           = concat (take (Suc e - s) (drop s rts))"
proof -
  have m: "map (\<lambda>run_i. if run_i = s then drop so (rts ! run_i)
                    else if run_i = e then take eo (rts ! run_i) else rts ! run_i) [Suc s..<e]
           = map ((!) rts) [Suc s..<e]"
    by (rule map_cong) auto
  have c: "changed_text_of rts s so e eo
             = drop so (rts ! s) @ concat (map ((!) rts) [Suc s..<e]) @ take eo (rts ! e)"
    unfolding changed_text_of_def Let_def index_range [OF assms(1)] using assms(1)
    by (simp add: m)
  have "take (Suc e - s) (drop s rts) = map ((!) rts) [s..<Suc e]"
    using assms by (intro take_drop_map_nth) simp_all
  also have "\<dots> = rts ! s # map ((!) rts) [Suc s..<e] @ [rts ! e]"
    using index_range [OF assms(1)] by simp
  finally show ?thesis unfolding c by simp
qed

lemma concat_three:
  assumes "s \<le> e" "e < length rts"
  shows "concat rts = concat (take s rts) @ concat (take (Suc e - s) (drop s rts))
                      @ concat (drop (Suc e) rts)"
proof -
  have "rts = take s rts @ take (Suc e - s) (drop s rts) @ drop (Suc e - s) (drop s rts)"
    by (metis append_take_drop_id)
  moreover have "drop (Suc e - s) (drop s rts) = drop (Suc e) rts" using assms by simp
  ultimately have "rts = take s rts @ take (Suc e - s) (drop s rts) @ drop (Suc e) rts"
    by simp
  then have "concat rts = concat (take s rts @ take (Suc e - s) (drop s rts) @ drop (Suc e) rts)"
    by simp
  then show ?thesis by simp
qed

lemma no_t_inside_facts:
  "no_t_inside k \<Longrightarrow> retext s k = k \<and> tnodes tg' b k = (if tg' = ''w:t'' then (if b then [tail k] else []) else tnodes tg' b k)"
proof (induction k arbitrary: b)
  case (Elem t a tx ks ta)
  have kids: "\<forall>k \<in> set ks. no_t_inside k"
    using Elem.prems by (auto simp: no_t_inside_def)
  have t: "t \<noteq> ''w:t''" using Elem.prems by (simp add: no_t_inside_def)
  have r: "map (retext s) ks = ks"
    using Elem.IH kids by (simp add: map_idI)
  have n: "tg' = ''w:t'' \<Longrightarrow> concat (map (tnodes tg' False) ks) = []"
    using Elem.IH kids by simp
  from t r n show ?case by auto
qed

lemma no_t_inside_list:
  assumes "\<forall>k \<in> set ks. no_t_inside k"
  shows "map (retext s) ks = ks" "concat (map (tnodes ''w:t'' False) ks) = []"
  using assms no_t_inside_facts [of _ s "''w:t''" False] by (simp_all add: map_idI)

lemma plain_run_texts:
  assumes "plain_run run"
  shows "xpath_text ''w:t'' (set_t_text s run) = s"
proof -
  from assms obtain pre a s0 ta post where
    k: "kids run = pre @ [Elem ''w:t'' a s0 [] ta] @ post"
    and n: "\<forall>k \<in> set pre. no_t_inside k" "\<forall>k \<in> set post. no_t_inside k"
    unfolding plain_run_def by auto
  show ?thesis
    unfolding xpath_text_def set_t_text_def kids_set_kids k
    by (simp add: no_t_inside_list [OF n(1)] no_t_inside_list [OF n(2)])
qed

lemma deletion_run_texts:
  "xpath_text ''w:t'' (track_changes_element Deletion d au da ci) = []"
  "xpath_text ''w:delText'' (track_changes_element Deletion d au da ci) = d"
  by (simp_all add: track_changes_element_def xpath_text_def)

lemma replacement_runs_text:
  assumes "plain_run run"
  shows "concat (map (xpath_text ''w:t'') (replacement_runs chg run ri))
           = before_part ri @ after_part ri"
  unfolding replacement_runs_def
  by (simp add: plain_run_texts [OF assms] deletion_run_texts)

lemma overlap_loop_parts:
  "delete_start \<le> delete_end \<Longrightarrow>
   ri \<in> set (overlap_loop delete_start delete_end i current_pos zs) \<Longrightarrow>
   before_part ri @ deleted_part ri @ after_part ri = rtext ri"
proof (induction zs arbitrary: i current_pos)
  case Nil
  then show ?case by simp
next
  case (Cons z zs)
  obtain c run where z: "z = (c, run)" by (cases z)
  let ?t = "xpath_text ''w:t'' run"
  let ?rest = "overlap_loop delete_start delete_end (Suc i) (current_pos + length ?t) zs"
  show ?case
  proof (cases "ri \<in> set ?rest")
    case True
    from Cons.IH [OF Cons.prems(1) True] show ?thesis .
  next
    case False
    with Cons.prems(2) z have cov: "current_pos < delete_end" "delete_start < current_pos + length ?t"
      and ri: "rtext ri = ?t" "delete_start_in_run ri = max current_pos delete_start - current_pos"
        "delete_end_in_run ri = min (current_pos + length ?t) delete_end - current_pos"
      by (auto simp: Let_def split: if_splits)
    have le: "delete_start_in_run ri \<le> delete_end_in_run ri"
      using cov Cons.prems(1) ri(2,3) by (auto simp: max_def min_def)
    have "take (delete_start_in_run ri) ?t
            @ take (delete_end_in_run ri - delete_start_in_run ri) (drop (delete_start_in_run ri) ?t)
          = take (delete_end_in_run ri) ?t"
      using le take_add [of "delete_start_in_run ri" "delete_end_in_run ri - delete_start_in_run ri" ?t]
      by simp
    then show ?thesis
      unfolding before_part_def deleted_part_def after_part_def ri(1)
      by (metis append.assoc append_take_drop_id)
  qed
qed

lemma para_text_runs:
  "para_text p = concat (map (xpath_text ''w:t'') (map snd (findall ''w:r'' p)))"
  by (simp add: para_text_def o_def)

lemma docs_splice_summary:
  assumes flat: "flat_paragraph p"
    and ap: "apply_to_paragraph c_text c_type dat p = Inr (Some p')"
  shows "\<exists>s so e eo before_text changed_text after_text.
           locate (map (xpath_text ''w:t'') (kids p)) c_text = Inr (Some (Some (s, so), e, eo))
           \<and> s \<le> e \<and> e < length (kids p)
           \<and> before_text = take so (xpath_text ''w:t'' (kids p ! s))
           \<and> changed_text = changed_text_of (map (xpath_text ''w:t'') (kids p)) s so e eo
           \<and> after_text = drop eo (xpath_text ''w:t'' (kids p ! e))
           \<and> map snd (findall ''w:r'' p) = kids p
           \<and> map snd (findall ''w:r'' p') =
                take s (kids p)
                @ (if before_text \<noteq> [] then [create_run before_text] else [])
                @ [create_run changed_text]
                @ (if after_text \<noteq> [] then [create_run after_text] else [])
                @ drop (Suc e) (kids p)
           \<and> para_text p' =
                concat (map (xpath_text ''w:t'') (take s (kids p)))
                @ before_text @ changed_text @ after_text
                @ concat (map (xpath_text ''w:t'') (drop (Suc e) (kids p)))
           \<and> length (findall ''w:r'' p') + (e - s + 1) =
                length (findall ''w:r'' p) + 1
                + (if before_text \<noteq> [] then 1 else 0) + (if after_text \<noteq> [] then 1 else 0)
           \<and> (s < e \<longrightarrow> para_text p' = para_text p)"
proof -
  let ?rts = "map (xpath_text ''w:t'') (kids p)"
  from apply_to_paragraph_flat [OF flat ap] obtain s so e eo where
    loc: "locate ?rts c_text = Inr (Some (Some (s, so), e, eo))"
    and b: "s \<le> e" "e < length (kids p)"
    and k: "kids p' =
               take s (kids p)
               @ (if take so (?rts ! s) \<noteq> [] then [create_run (take so (?rts ! s))] else [])
               @ [wrap_tracked_change c_type (create_run (changed_text_of ?rts s so e eo))
                    ''AutoScript'' dat]
               @ (if drop eo (?rts ! e) \<noteq> [] then [create_run (drop eo (?rts ! e))] else [])
               @ drop (Suc e) (kids p)"
    by blast
  define before_text where "before_text = take so (xpath_text ''w:t'' (kids p ! s))"
  define changed_text where "changed_text = changed_text_of ?rts s so e eo"
  define after_text where "after_text = drop eo (xpath_text ''w:t'' (kids p ! e))"
  have bt: "take so (?rts ! s) = before_text" and at: "drop eo (?rts ! e) = after_text"
    using b by (simp_all add: before_text_def after_text_def)
  note k' = k [unfolded bt at changed_text_def [symmetric]]
  have r0: "map snd (findall ''w:r'' p) = kids p" by (rule flat_runs [OF flat])
  have r1: "map snd (findall ''w:r'' p') =
                take s (kids p)
                @ (if before_text \<noteq> [] then [create_run before_text] else [])
                @ [create_run changed_text]
                @ (if after_text \<noteq> [] then [create_run after_text] else [])
                @ drop (Suc e) (kids p)"
    by (rule runs_after_splice [OF flat k'])
  have t1: "para_text p' =
                concat (map (xpath_text ''w:t'') (take s (kids p)))
                @ before_text @ changed_text @ after_text
                @ concat (map (xpath_text ''w:t'') (drop (Suc e) (kids p)))"
    unfolding para_text_runs r1 by simp
  have "length (map snd (findall ''w:r'' p')) + (e - s + 1) =
          length (map snd (findall ''w:r'' p)) + 1
          + (if before_text \<noteq> [] then 1 else 0) + (if after_text \<noteq> [] then 1 else 0)"
    unfolding r0 r1 using b by (auto simp: min_def)
  then have n: "length (findall ''w:r'' p') + (e - s + 1) =
          length (findall ''w:r'' p) + 1
          + (if before_text \<noteq> [] then 1 else 0) + (if after_text \<noteq> [] then 1 else 0)"
    by simp
  have c: "s < e \<longrightarrow> para_text p' = para_text p"
  proof
    assume se: "s < e"
    have le: "e < length ?rts" using b by simp
    have "before_text @ changed_text @ after_text = concat (take (Suc e - s) (drop s ?rts))"
      using changed_text_multi [OF se le, of so eo]
      unfolding bt at changed_text_def [symmetric] .
    moreover have "para_text p = concat ?rts" unfolding para_text_runs r0 ..
    moreover have "concat ?rts = concat (take s ?rts) @ concat (take (Suc e - s) (drop s ?rts))
                      @ concat (drop (Suc e) ?rts)"
      by (rule concat_three [OF b(1) le])
    ultimately show "para_text p' = para_text p"
      unfolding t1 by (simp add: take_map drop_map)
  qed
  from loc b r0 r1 t1 n c before_text_def changed_text_def after_text_def
  show ?thesis by blast
qed

lemma deletion_splice_summary:
  assumes "apply_deletion_change llm k q chinese_text chg = (Inr True, q')"
  shows "\<exists>response delete_start todo befores afters.
           get_llm_response llm k = Inr response
           \<and> py_find chinese_text (strip response) = Some delete_start
           \<and> todo = runs_to_modify q delete_start (delete_start + length (strip response))
           \<and> befores = length (filter (\<lambda>ri. before_part ri \<noteq> []) todo)
           \<and> afters = length (filter (\<lambda>ri. after_part ri \<noteq> []) todo)
           \<and> kids q' = rewritten_from chg (kids q) 0 todo
           \<and> length (xpath_child ''w:r'' q') = length (xpath_child ''w:r'' q) + befores + afters
           \<and> befores \<le> 1 \<and> afters \<le> 1
           \<and> (\<forall>ri \<in> set todo.
                 tag (kids q ! child ri) = ''w:r''
                 \<and> before_part ri @ deleted_part ri @ after_part ri
                     = xpath_text ''w:t'' (kids q ! child ri)
                 \<and> (plain_run (kids q ! child ri) \<longrightarrow>
                      concat (map (xpath_text ''w:t'')
                                (replacement_runs chg (kids q ! child ri) ri))
                        = before_part ri @ after_part ri))"
proof -
  from apply_deletion_change_result [OF assms] obtain response delete_start where
    g: "get_llm_response llm k = Inr response"
    and f: "py_find chinese_text (strip response) = Some delete_start"
    and r: "let todo = runs_to_modify q delete_start (delete_start + length (strip response));
                befores = length (filter (\<lambda>ri. before_part ri \<noteq> []) todo);
                afters = length (filter (\<lambda>ri. after_part ri \<noteq> []) todo)
            in kids q' = rewritten_from chg (kids q) 0 todo
               \<and> length (xpath_child ''w:r'' q') = length (xpath_child ''w:r'' q) + befores + afters
               \<and> befores \<le> 1 \<and> afters \<le> 1"
    by blast
  define todo where "todo = runs_to_modify q delete_start (delete_start + length (strip response))"
  have le: "delete_start \<le> delete_start + length (strip response)" by simp
  have per: "\<forall>ri \<in> set todo.
                 tag (kids q ! child ri) = ''w:r''
                 \<and> before_part ri @ deleted_part ri @ after_part ri
                     = xpath_text ''w:t'' (kids q ! child ri)
                 \<and> (plain_run (kids q ! child ri) \<longrightarrow>
                      concat (map (xpath_text ''w:t'')
                                (replacement_runs chg (kids q ! child ri) ri))
                        = before_part ri @ after_part ri)"
  proof
    fix ri assume m: "ri \<in> set todo"
    then have m': "ri \<in> set (runs_to_modify q delete_start (delete_start + length (strip response)))"
      by (simp add: todo_def)
    from runs_to_modify_props [OF m'] have t: "tag (kids q ! child ri) = ''w:r''"
      and x: "rtext ri = xpath_text ''w:t'' (kids q ! child ri)" by simp_all
    from m' have "before_part ri @ deleted_part ri @ after_part ri = rtext ri"
      unfolding runs_to_modify_def by (rule overlap_loop_parts [OF le])
    with t x replacement_runs_text show
      "tag (kids q ! child ri) = ''w:r''
                 \<and> before_part ri @ deleted_part ri @ after_part ri
                     = xpath_text ''w:t'' (kids q ! child ri)
                 \<and> (plain_run (kids q ! child ri) \<longrightarrow>
                      concat (map (xpath_text ''w:t'')
                                (replacement_runs chg (kids q ! child ri) ri))
                        = before_part ri @ after_part ri)" by simp
  qed
  from g f r per show ?thesis unfolding Let_def todo_def by blast
qed

lemma demo_deletion_result:
  "apply_deletion_change says_lo_wo 0 two_runs ''Hello world'' demo_deletion
     = (Inr True, deleted_two_runs)"
  by code_simp

lemma demo_splice_result:
  "apply_to_paragraph ''lo wo'' ''insert'' ''D'' two_runs = Inr (Some spliced_two_runs)"
  by code_simp

section \<open>Insertions\<close>











end
